theory Spec2Isabelle
  imports Complex_Main "HOL-Library.Log_Nat" "HOL-Library.Word" "HOL-Library.Monad_Syntax"
begin

section \<open>Floating-point arithmetic of the C program\<close>

text \<open>
  \<^verbatim>\<open>ascii_art.c\<close> computes in C \<^verbatim>\<open>float\<close> and \<^verbatim>\<open>double\<close>. A finite floating-point
  value is a rational number, modelled as a \<^typ>\<open>real\<close>; every arithmetic operation is the
  exact operation followed by a rounding into the type of the operation (IEEE 754, no excess
  precision). The rounding is round to nearest, ties to even, with \<open>p\<close> bits of precision
  and smallest normal exponent \<open>emin\<close> (gradual underflow below it).

  The exponent range is not bounded above: a result beyond the largest finite value stays a
  (huge) finite number here, where the machine gives an infinity. Every floating-point value
  of the program ends in a conversion to \<^verbatim>\<open>int\<close>, which is undefined for both, so the
  two agree. A division by zero (infinity or NaN on the machine) is undefined here at once.
  The sign of a zero is not kept; the program never observes it.
\<close>

definition rne :: "real \<Rightarrow> int" where
  "rne r = (let f = \<lfloor>r\<rfloor>; d = r - of_int f in
     if d < 1/2 then f else if 1/2 < d then f + 1 else if even f then f else f + 1)"

definition ilog2 :: "real \<Rightarrow> int" where
  "ilog2 x = (if 1 \<le> x then bitlen \<lfloor>x\<rfloor> - 1 else - bitlen (\<lceil>1 / x\<rceil> - 1))"

definition round_to :: "nat \<Rightarrow> int \<Rightarrow> real \<Rightarrow> real" where
  "round_to p emin x =
     (if x = 0 then 0
      else let e = max (ilog2 \<bar>x\<bar>) emin; q = 2 powi (e - (int p - 1))
           in of_int (rne (x / q)) * q)"

text \<open>
  The arithmetic is a parameter of the model: \<open>single\<close> rounds a result into \<^verbatim>\<open>float\<close>,
  \<open>double\<close> into \<^verbatim>\<open>double\<close>. \<open>ieee\<close> is the arithmetic of the compiled program
  (IEEE 754 binary32 and binary64); \<open>exact\<close> rounds nothing and reads the same code in exact
  arithmetic.
\<close>

record fpu =
  single :: "real \<Rightarrow> real"
  double :: "real \<Rightarrow> real"

definition ieee :: fpu where
  "ieee = \<lparr>single = round_to 24 (-126), double = round_to 53 (-1022)\<rparr>"

definition exact :: fpu where
  "exact = \<lparr>single = (\<lambda>x. x), double = (\<lambda>x. x)\<rparr>"

text \<open>
  The numbers of a format: an integer significand below \<open>2 ^ p\<close> in magnitude, scaled by
  a power of two not below the subnormal quantum.
\<close>

definition representable :: "nat \<Rightarrow> int \<Rightarrow> real \<Rightarrow> bool" where
  "representable p emin f =
     (\<exists>m k. f = of_int m * 2 powi k \<and> \<bar>m\<bar> < 2 ^ p \<and> emin - (int p - 1) \<le> k)"

text \<open>Float division; a zero divisor leaves the finite numbers.\<close>

definition fdiv :: "fpu \<Rightarrow> real \<Rightarrow> real \<Rightarrow> real option" where
  "fdiv fp a b = (if b = 0 then None else Some (single fp (a / b)))"

text \<open>\<^verbatim>\<open>floorf\<close>, \<^verbatim>\<open>ceilf\<close> and \<^verbatim>\<open>roundf\<close> (halves away from zero) are exact.\<close>

definition floorf :: "real \<Rightarrow> real" where
  "floorf x = of_int \<lfloor>x\<rfloor>"

definition ceilf :: "real \<Rightarrow> real" where
  "ceilf x = of_int \<lceil>x\<rceil>"

definition roundf :: "real \<Rightarrow> real" where
  "roundf x = (if 0 \<le> x then of_int \<lfloor>x + 1/2\<rfloor> else of_int \<lceil>x - 1/2\<rceil>)"

text \<open>
  The conversion \<^verbatim>\<open>(int)x\<close> truncates towards zero and is undefined when the result is
  not a 32-bit \<^verbatim>\<open>int\<close>.
\<close>

definition INT_MAX :: int where
  "INT_MAX = 2147483647"

definition INT_MIN :: int where
  "INT_MIN = - 2147483648"

definition cast_int :: "real \<Rightarrow> int option" where
  "cast_int x = (let t = (if 0 \<le> x then \<lfloor>x\<rfloor> else \<lceil>x\<rceil>)
                 in if INT_MIN \<le> t \<and> t \<le> INT_MAX then Some t else None)"

section \<open>The program\<close>

subsection \<open>Ramps and the glyph mapper (lines 34-48)\<close>

definition RAMP_DEFAULT :: string where
  "RAMP_DEFAULT = ''@%#*+=-:. ''"

definition RAMP_INVERT :: string where
  "RAMP_INVERT = '' .:-=+*#%@''"

definition clampi :: "int \<Rightarrow> int \<Rightarrow> int \<Rightarrow> int" where
  "clampi v a b = (if v < a then a else (if v > b then b else v))"

text \<open>
  \<^verbatim>\<open>ramp[idx]\<close> on a C string of \<open>length ramp\<close> characters and a terminating NUL.
\<close>

definition char_at :: "string \<Rightarrow> int \<Rightarrow> char option" where
  "char_at ramp i =
     (if 0 \<le> i \<and> i < int (length ramp) then Some (ramp ! nat i)
      else if i = int (length ramp) then Some (CHR 0x00)
      else None)"

definition luminance_to_char :: "fpu \<Rightarrow> real \<Rightarrow> string \<Rightarrow> char option" where
  "luminance_to_char fp lum ramp = do {
     let len = int (length ramp);
     idx \<leftarrow> cast_int (floorf (single fp
               (single fp (lum * single fp (of_int (len - 1))) + single fp (1/2))));
     char_at ramp (clampi idx 0 (len - 1))
   }"

subsection \<open>Command line (lines 51-69)\<close>

definition newline :: char where
  "newline = CHR 0x0A"

definition usage :: "string \<Rightarrow> string" where
  "usage prog =
     ''Usage: '' @ prog @ '' <image> [width] [inv]'' @ [newline] @
     ''  image : path to PNG/JPEG/BMP/GIF/TGA/WebP etc'' @ [newline] @
     ''  width : desired output width in characters (default 120)'' @ [newline] @
     ''  inv   : if present (e.g. '' @ [CHR 0x27] @ ''inv'' @ [CHR 0x27] @
     ''), invert ASCII brightness mapping'' @ [newline]"

definition load_error :: "string \<Rightarrow> string" where
  "load_error filename =
     ''Failed to load image '' @ [CHR 0x27] @ filename @ [CHR 0x27] @
     '' (stb_image error)'' @ [newline]"

text \<open>
  \<^verbatim>\<open>atoi\<close> of the C library: leading white space, an optional sign, then the longest run
  of decimal digits (none gives 0); undefined when the value is not an \<^verbatim>\<open>int\<close>.
\<close>

definition isspace :: "char \<Rightarrow> bool" where
  "isspace c = (c \<in> set [CHR 0x20, CHR 0x09, CHR 0x0A, CHR 0x0B, CHR 0x0C, CHR 0x0D])"

definition isdigit :: "char \<Rightarrow> bool" where
  "isdigit c = (48 \<le> (of_char c :: nat) \<and> (of_char c :: nat) \<le> 57)"

definition digits_value :: "string \<Rightarrow> int" where
  "digits_value ds = foldl (\<lambda>a c. 10 * a + (of_char c - 48)) 0 ds"

definition atoi :: "string \<Rightarrow> int option" where
  "atoi s =
     (let s1 = dropWhile isspace s;
          neg = (s1 \<noteq> [] \<and> hd s1 = CHR ''-'');
          s2 = (if s1 \<noteq> [] \<and> (hd s1 = CHR ''-'' \<or> hd s1 = CHR ''+'') then tl s1 else s1);
          v = digits_value (takeWhile isdigit s2);
          r = (if neg then - v else v)
      in if INT_MIN \<le> r \<and> r \<le> INT_MAX then Some r else None)"

text \<open>Lines 61-66: \<open>argv\<close> is the whole argument vector, \<open>argc = length argv\<close>.\<close>

definition target_width_of :: "string list \<Rightarrow> int option" where
  "target_width_of argv =
     (if 3 \<le> length argv
      then do { t \<leftarrow> atoi (argv ! 2); Some (if t \<le> 0 then 120 else t) }
      else Some 120)"

text \<open>Lines 62, 67-69.\<close>

definition invert_of :: "string list \<Rightarrow> bool" where
  "invert_of argv =
     (4 \<le> length argv \<and> (argv ! 3 = ''inv'' \<or> argv ! 3 = ''invert''))"

subsection \<open>Geometry (lines 85-89, 96-101, 104-109)\<close>

definition out_height :: "fpu \<Rightarrow> int \<Rightarrow> int \<Rightarrow> int \<Rightarrow> int option" where
  "out_height fp w h out_w = do {
     let CHAR_ASPECT = single fp (55/100);
     ratio \<leftarrow> fdiv fp (single fp (of_int out_w)) (single fp (of_int w));
     out_h \<leftarrow> cast_int (roundf (single fp
                 (single fp (single fp (of_int h) * ratio) * CHAR_ASPECT)));
     Some (if out_h < 1 then 1 else out_h)
   }"

text \<open>
  The source range of output index \<open>i\<close> along an axis of \<open>n\<close> source pixels and \<open>out_n\<close>
  cells: lines 96-101 for rows (\<open>span fp oy h out_h\<close>) and, with the same text, lines
  104-109 for columns (\<open>span fp ox w out_w\<close>).
\<close>

definition span :: "fpu \<Rightarrow> int \<Rightarrow> int \<Rightarrow> int \<Rightarrow> (int \<times> int) option" where
  "span fp i n out_n = do {
     s0f \<leftarrow> fdiv fp (single fp (single fp (of_int i) * single fp (of_int n)))
                     (single fp (of_int out_n));
     s1f \<leftarrow> fdiv fp (single fp (single fp (of_int (i + 1)) * single fp (of_int n)))
                     (single fp (of_int out_n));
     s0 \<leftarrow> cast_int (floorf s0f);
     s1 \<leftarrow> cast_int (ceilf s1f);
     Some (clampi s0 0 n, clampi s1 0 n)
   }"

subsection \<open>Averaging (lines 111-129)\<close>

text \<open>A read of \<^verbatim>\<open>img[i]\<close>; outside the buffer it is undefined.\<close>

definition byte_at :: "8 word list \<Rightarrow> int \<Rightarrow> 8 word option" where
  "byte_at img i = (if 0 \<le> i \<and> i < int (length img) then Some (img ! nat i) else None)"

text \<open>
  The result of an \<^verbatim>\<open>int\<close> operation; outside 32 bits it is undefined (signed overflow).
\<close>

definition int_result :: "int \<Rightarrow> int option" where
  "int_result v = (if INT_MIN \<le> v \<and> v \<le> INT_MAX then Some v else None)"

text \<open>Line 115: \<^verbatim>\<open>(sy * w + sx) * (channels == 1 ? 1 : channels)\<close>, each step an \<^verbatim>\<open>int\<close>.\<close>

definition pixel_index :: "int \<Rightarrow> int \<Rightarrow> int \<Rightarrow> int \<Rightarrow> int option" where
  "pixel_index w channels sy sx = do {
     row \<leftarrow> int_result (sy * w);
     pos \<leftarrow> int_result (row + sx);
     int_result (pos * (if channels = 1 then 1 else channels))
   }"

definition pixel_rgb :: "8 word list \<Rightarrow> int \<Rightarrow> int \<Rightarrow> int \<Rightarrow> int
    \<Rightarrow> (8 word \<times> 8 word \<times> 8 word) option" where
  "pixel_rgb img w channels sy sx = do {
     idx \<leftarrow> pixel_index w channels sy sx;
     if channels = 1 then do { v \<leftarrow> byte_at img idx; Some (v, v, v) }
     else do {
       i0 \<leftarrow> int_result (idx + 0);
       r \<leftarrow> byte_at img i0;
       i1 \<leftarrow> int_result (idx + 1);
       g \<leftarrow> byte_at img i1;
       i2 \<leftarrow> int_result (idx + 2);
       b \<leftarrow> byte_at img i2;
       Some (r, g, b)
     }
   }"

definition luma :: "fpu \<Rightarrow> 8 word \<times> 8 word \<times> 8 word \<Rightarrow> real" where
  "luma fp = (\<lambda>(r, g, b).
     single fp
       (single fp
          (single fp
             (single fp (single fp (2126/10000) * single fp (of_nat (unat r)))
              + single fp (single fp (7152/10000) * single fp (of_nat (unat g))))
           + single fp (single fp (722/10000) * single fp (of_nat (unat b))))
        / single fp 255))"

fun scan_row :: "fpu \<Rightarrow> 8 word list \<Rightarrow> int \<Rightarrow> int \<Rightarrow> int \<Rightarrow> int list
    \<Rightarrow> real \<times> int \<Rightarrow> (real \<times> int) option" where
  "scan_row fp img w channels sy [] acc = Some acc"
| "scan_row fp img w channels sy (sx # sxs) (sum_lum, count) =
     (case pixel_rgb img w channels sy sx of
        None \<Rightarrow> None
      | Some px \<Rightarrow>
          scan_row fp img w channels sy sxs (double fp (sum_lum + luma fp px), count + 1))"

fun scan_rect :: "fpu \<Rightarrow> 8 word list \<Rightarrow> int \<Rightarrow> int \<Rightarrow> int list \<Rightarrow> int list
    \<Rightarrow> real \<times> int \<Rightarrow> (real \<times> int) option" where
  "scan_rect fp img w channels [] sxs acc = Some acc"
| "scan_rect fp img w channels (sy # sys) sxs acc =
     (case scan_row fp img w channels sy sxs acc of
        None \<Rightarrow> None
      | Some acc' \<Rightarrow> scan_rect fp img w channels sys sxs acc')"

text \<open>Lines 111-129 for one cell: the two loops from \<open>(0.0, 0)\<close>, then the average.\<close>

definition cell_luminance :: "fpu \<Rightarrow> 8 word list \<Rightarrow> int \<Rightarrow> int
    \<Rightarrow> int \<times> int \<Rightarrow> int \<times> int \<Rightarrow> real option" where
  "cell_luminance fp img w channels ys xs = do {
     (sum_lum, count) \<leftarrow>
        scan_rect fp img w channels [fst ys..snd ys - 1] [fst xs..snd xs - 1] (double fp 0, 0);
     Some (if count > 0 then single fp (double fp (sum_lum / double fp (of_int count)))
           else single fp 0)
   }"

subsection \<open>Rendering and main (lines 50-139)\<close>

record image =
  img_w :: int
  img_h :: int
  img_channels :: int
  img_data :: "8 word list"

text \<open>One pass of the loop body of lines 103-133: the glyph of cell \<open>(ox, oy)\<close>.\<close>

definition cell_glyph :: "fpu \<Rightarrow> image \<Rightarrow> int \<Rightarrow> string \<Rightarrow> int \<times> int \<Rightarrow> int
    \<Rightarrow> char option" where
  "cell_glyph fp im out_w ramp ys ox = do {
     xs \<leftarrow> span fp ox (img_w im) out_w;
     avg_lum \<leftarrow> cell_luminance fp (img_data im) (img_w im) (img_channels im) ys xs;
     luminance_to_char fp avg_lum ramp
   }"

fun render_cells :: "fpu \<Rightarrow> image \<Rightarrow> int \<Rightarrow> string \<Rightarrow> int \<times> int \<Rightarrow> int list
    \<Rightarrow> string option" where
  "render_cells fp im out_w ramp ys [] = Some []"
| "render_cells fp im out_w ramp ys (ox # oxs) =
     (case cell_glyph fp im out_w ramp ys ox of
        None \<Rightarrow> None
      | Some ch \<Rightarrow> map_option ((#) ch) (render_cells fp im out_w ramp ys oxs))"

text \<open>One pass of the loop body of lines 94-135: the text of output row \<open>oy\<close>.\<close>

definition render_row :: "fpu \<Rightarrow> image \<Rightarrow> int \<Rightarrow> int \<Rightarrow> string \<Rightarrow> int \<Rightarrow> string option" where
  "render_row fp im out_w out_h ramp oy = do {
     ys \<leftarrow> span fp oy (img_h im) out_h;
     cells \<leftarrow> render_cells fp im out_w ramp ys [0..out_w - 1];
     Some (cells @ [newline])
   }"

fun render_rows :: "fpu \<Rightarrow> image \<Rightarrow> int \<Rightarrow> int \<Rightarrow> string \<Rightarrow> int list \<Rightarrow> string option" where
  "render_rows fp im out_w out_h ramp [] = Some []"
| "render_rows fp im out_w out_h ramp (oy # oys) =
     (case render_row fp im out_w out_h ramp oy of
        None \<Rightarrow> None
      | Some row \<Rightarrow> map_option ((@) row) (render_rows fp im out_w out_h ramp oys))"

text \<open>Lines 78-135 on a decoded image: what the program writes to standard output.\<close>

definition convert :: "fpu \<Rightarrow> image \<Rightarrow> int \<Rightarrow> bool \<Rightarrow> string option" where
  "convert fp im target_width invert = do {
     let im' = (if img_channels im < 3 then im\<lparr>img_channels := 1\<rparr> else im);
     let out_w = target_width;
     out_h \<leftarrow> out_height fp (img_w im') (img_h im') out_w;
     let ramp = (if invert then RAMP_INVERT else RAMP_DEFAULT);
     render_rows fp im' out_w out_h ramp [0..out_h - 1]
   }"

record outcome =
  exit_code :: int
  stdout :: string
  stderr :: string

text \<open>
  \<open>main\<close>: the decoder \<^verbatim>\<open>stbi_load\<close> is outside the program and a parameter (\<open>None\<close>
  is its null result). \<open>None\<close> for \<open>main\<close> is undefined behaviour. An empty argument vector
  has a null \<^verbatim>\<open>argv[0]\<close>, which the usage message would print.
\<close>

definition main :: "fpu \<Rightarrow> (string \<Rightarrow> image option) \<Rightarrow> string list \<Rightarrow> outcome option" where
  "main fp stbi_load argv =
     (if length argv < 2 then
        (case argv of
           [] \<Rightarrow> None
         | prog # _ \<Rightarrow> Some \<lparr>exit_code = 1, stdout = [], stderr = usage prog\<rparr>)
      else do {
        let filename = argv ! 1;
        target_width \<leftarrow> target_width_of argv;
        let invert = invert_of argv;
        (case stbi_load filename of
           None \<Rightarrow> Some \<lparr>exit_code = 2, stdout = [], stderr = load_error filename\<rparr>
         | Some im \<Rightarrow> do {
             text \<leftarrow> convert fp im target_width invert;
             Some \<lparr>exit_code = 0, stdout = text, stderr = []\<rparr>
           })
      })"

subsection \<open>Predicates used in the statements\<close>



text \<open>A message names a file when the file name occurs in it.\<close>

definition names_file :: "string \<Rightarrow> string \<Rightarrow> bool" where
  "names_file msg filename = (\<exists>pre post. msg = pre @ filename @ post)"

text \<open>
  What the decoder hands over (section 3 of the specification, and \<^verbatim>\<open>stbi_load\<close> with no
  requested channel count): positive dimensions, one to four channels, and a buffer of
  \<open>width * height * channels\<close> bytes whose size is an \<^verbatim>\<open>int\<close>.
\<close>

definition well_formed :: "image \<Rightarrow> bool" where
  "well_formed im =
     (1 \<le> img_w im \<and> 1 \<le> img_h im \<and> img_channels im \<in> {1, 2, 3, 4} \<and>
      int (length (img_data im)) = img_w im * img_h im * img_channels im \<and>
      int (length (img_data im)) \<le> INT_MAX)"

text \<open>The image after line 79.\<close>

definition normalized :: "image \<Rightarrow> image" where
  "normalized im = (if img_channels im < 3 then im\<lparr>img_channels := 1\<rparr> else im)"

text \<open>The text of a grid: every row followed by a newline.\<close>

definition lines_of :: "string list \<Rightarrow> string" where
  "lines_of rows = concat (map (\<lambda>r. r @ [newline]) rows)"

text \<open>A two by two image, three white pixels and a black one, and a decoder that knows it.\<close>

definition demo_image :: image where
  "demo_image = \<lparr>img_w = 2, img_h = 2, img_channels = 3,
                  img_data = [255,255,255, 255,255,255, 255,255,255, 0,0,0]\<rparr>"

definition demo_load :: "string \<Rightarrow> image option" where
  "demo_load f = (if f = ''shot.png'' then Some demo_image else None)"

text \<open>
  The average as sections 3 and 4.2 of the specification word it, in exact arithmetic, to
  compare with the loops of lines 111-129. The buffer is row-major with \<open>c\<close> bytes for
  every pixel, \<open>c\<close> being the channel count of the decoded buffer: \<open>channel_value\<close> is
  channel \<open>k\<close> of the pixel at \<open>(sx, sy)\<close>. The luminance of a pixel takes the first byte
  for all three colours when the buffer has fewer than three channels, and the first three
  channels otherwise (a fourth is never read). \<open>mean_luminance\<close> is the arithmetic mean over
  the rectangle \<open>[sy0, sy1) \<times> [sx0, sx1)\<close>.
\<close>

definition channel_value :: "8 word list \<Rightarrow> int \<Rightarrow> int \<Rightarrow> int \<Rightarrow> int \<Rightarrow> int \<Rightarrow> real" where
  "channel_value img w c sy sx k = of_nat (unat (img ! nat ((sy * w + sx) * c + k)))"

definition pixel_luminance :: "8 word list \<Rightarrow> int \<Rightarrow> int \<Rightarrow> int \<Rightarrow> int \<Rightarrow> real" where
  "pixel_luminance img w c sy sx =
     (let r = channel_value img w c sy sx 0;
          g = (if c < 3 then r else channel_value img w c sy sx 1);
          b = (if c < 3 then r else channel_value img w c sy sx 2)
      in (0.2126 * r + 0.7152 * g + 0.0722 * b) / 255)"

definition mean_luminance :: "8 word list \<Rightarrow> int \<Rightarrow> int \<Rightarrow> int \<Rightarrow> int \<Rightarrow> int \<Rightarrow> int \<Rightarrow> real" where
  "mean_luminance img w c sy0 sy1 sx0 sx1 =
     (\<Sum>sy = sy0..<sy1. \<Sum>sx = sx0..<sx1. pixel_luminance img w c sy sx)
       / of_int ((sy1 - sy0) * (sx1 - sx0))"

text \<open>A row of two opaque black pixels, grey and alpha.\<close>

definition grey_alpha_image :: image where
  "grey_alpha_image = \<lparr>img_w = 2, img_h = 1, img_channels = 2, img_data = [0, 255, 0, 255]\<rparr>"

section \<open>Basic facts\<close>

lemma clampi_range: "a \<le> b \<Longrightarrow> a \<le> clampi v a b \<and> clampi v a b \<le> b"
  by (simp add: clampi_def)


lemma span_range:
  assumes "span fp i n out_n = Some (s0, s1)" and "0 \<le> n"
  shows "0 \<le> s0 \<and> s0 \<le> n \<and> 0 \<le> s1 \<and> s1 \<le> n"
  using assms clampi_range [of 0 n]
  by (auto simp: span_def Let_def split: bind_splits)

lemma int_result_Some: "INT_MIN \<le> v \<Longrightarrow> v \<le> INT_MAX \<Longrightarrow> int_result v = Some v"
  by (simp add: int_result_def)

lemma int_result_value: "int_result v = Some u \<Longrightarrow> u = v"
  by (simp add: int_result_def split: if_splits)

lemma pixel_index_bounds:
  assumes "0 \<le> sy" "sy < h" "0 \<le> sx" "sx < w" "c = 1 \<or> c = 3 \<or> c = 4"
    and "w * h * c \<le> INT_MAX"
  shows "pixel_index w c sy sx = Some ((sy * w + sx) * c)"
    and "0 \<le> (sy * w + sx) * c"
    and "(sy * w + sx) * c + (if c = 1 then 0 else 2) < w * h * c"
proof -
  have w: "0 < w" using assms by linarith
  have c: "1 \<le> c" using assms(5) by auto
  have a: "0 \<le> sy * w" using assms w by simp
  have p: "0 \<le> sy * w + sx" using a assms(3) by simp
  have "sy + 1 \<le> h" using assms by simp
  then have "(sy + 1) * w \<le> h * w" using w by (intro mult_right_mono) simp_all
  then have b: "sy * w + sx + 1 \<le> w * h" using assms by (simp add: algebra_simps)
  show nn: "0 \<le> (sy * w + sx) * c" using p c by simp
  have "(sy * w + sx + 1) * c \<le> (w * h) * c" using b c by (intro mult_right_mono) simp_all
  then show hi: "(sy * w + sx) * c + (if c = 1 then 0 else 2) < w * h * c"
    using assms(5) by (auto simp: algebra_simps)
  have "(sy * w + sx) * 1 \<le> (sy * w + sx) * c" using p c by (intro mult_left_mono) simp_all
  then have le: "sy * w + sx \<le> (sy * w + sx) * c" by simp
  have top: "(sy * w + sx) * c \<le> INT_MAX" using hi assms(6) by (simp split: if_splits)
  have r1: "int_result (sy * w) = Some (sy * w)"
    using a le top assms(3) by (intro int_result_Some) (simp_all add: INT_MIN_def)
  have r2: "int_result (sy * w + sx) = Some (sy * w + sx)"
    using p le top by (intro int_result_Some) (simp_all add: INT_MIN_def)
  have r3: "int_result ((sy * w + sx) * c) = Some ((sy * w + sx) * c)"
    using nn top by (intro int_result_Some) (simp_all add: INT_MIN_def)
  show "pixel_index w c sy sx = Some ((sy * w + sx) * c)"
    using assms(5) r1 r2 r3 by (auto simp: pixel_index_def)
qed

lemma pixel_rgb_in_buffer:
  assumes "0 \<le> sy" "sy < h" "0 \<le> sx" "sx < w" "c = 1 \<or> c = 3 \<or> c = 4"
    and "w * h * c \<le> int (length img)" and "int (length img) \<le> INT_MAX"
  shows "\<exists>px. pixel_rgb img w c sy sx = Some px"
proof -
  have m: "w * h * c \<le> INT_MAX" using assms(6,7) by simp
  note b = pixel_index_bounds [OF assms(1-5) m]
  define idx where "idx = (sy * w + sx) * c"
  have i: "pixel_index w c sy sx = Some idx" "0 \<le> idx"
    "idx + (if c = 1 then 0 else 2) < int (length img)"
    using b assms(6) by (simp_all add: idx_def)
  show ?thesis
  proof (cases "c = 1")
    case True
    then show ?thesis using i by (simp add: pixel_rgb_def byte_at_def)
  next
    case False
    then have r: "int_result (idx + 0) = Some idx" "int_result (idx + 1) = Some (idx + 1)"
      "int_result (idx + 2) = Some (idx + 2)"
      using i(2,3) assms(7) by (simp_all add: int_result_def INT_MIN_def)
    show ?thesis using False i r by (simp add: pixel_rgb_def byte_at_def)
  qed
qed

lemma pixel_rgb_defined:
  assumes "0 \<le> sy" "sy < h" "0 \<le> sx" "sx < w" "c = 1 \<or> c = 3 \<or> c = 4"
    and "int (length img) = w * h * c" and "int (length img) \<le> INT_MAX"
  shows "\<exists>px. pixel_rgb img w c sy sx = Some px"
  using pixel_rgb_in_buffer [OF assms(1-5) _ assms(7)] assms(6) by simp

lemma scan_row_defined:
  assumes "\<forall>sx \<in> set sxs. \<exists>px. pixel_rgb img w c sy sx = Some px"
  shows "\<exists>s. scan_row fp img w c sy sxs (a, n) = Some (s, n + int (length sxs))"
  using assms
proof (induction sxs arbitrary: a n)
  case Nil
  then show ?case by simp
next
  case (Cons sx sxs)
  then obtain px where px: "pixel_rgb img w c sy sx = Some px" by auto
  from Cons.IH [of "double fp (a + luma fp px)" "n + 1"] Cons.prems
  show ?case by (auto simp: px)
qed

lemma scan_rect_defined:
  assumes "\<forall>sy \<in> set sys. \<forall>sx \<in> set sxs. \<exists>px. pixel_rgb img w c sy sx = Some px"
  shows "\<exists>s. scan_rect fp img w c sys sxs (a, n) = Some (s, n + int (length sys) * int (length sxs))"
  using assms
proof (induction sys arbitrary: a n)
  case Nil
  then show ?case by simp
next
  case (Cons sy sys)
  then obtain s where s: "scan_row fp img w c sy sxs (a, n) = Some (s, n + int (length sxs))"
    using scan_row_defined [of sxs img w c sy fp a n] by auto
  from Cons.IH [of s "n + int (length sxs)"] Cons.prems
  show ?case by (auto simp: s algebra_simps)
qed

lemma length_upto: "length [i..j] = nat (j - i + 1)"
  by simp

lemma cast_int_of_int:
  "INT_MIN \<le> k \<Longrightarrow> k \<le> INT_MAX \<Longrightarrow> cast_int (of_int k) = Some k"
  by (simp add: cast_int_def)


section \<open>Rounding to nearest\<close>

lemma ilog2_bounds:
  assumes "0 < x"
  shows "2 powi (ilog2 x) \<le> x \<and> x < 2 powi (ilog2 x + 1)"
proof (cases "1 \<le> x")
  case True
  define n where "n = \<lfloor>x\<rfloor>"
  have n1: "1 \<le> n" using True by (simp add: n_def le_floor_iff)
  then have "0 < n" by simp
  from bitlen_bounds [OF this]
  have b: "2 ^ nat (bitlen n - 1) \<le> n" "n < 2 ^ nat (bitlen n)" by simp_all
  have bl: "1 \<le> bitlen n" using n1 by (simp add: bitlen_def floorlog_def)
  have e: "ilog2 x = bitlen n - 1" using True by (simp add: ilog2_def n_def)
  have "(2::real) powi (bitlen n - 1) = 2 ^ nat (bitlen n - 1)"
    using bl by (simp add: power_int_def)
  also have "\<dots> = of_int (2 ^ nat (bitlen n - 1))" by simp
  also have "\<dots> \<le> of_int n" using b(1) by (simp only: of_int_le_iff)
  also have "\<dots> \<le> x" by (simp add: n_def)
  finally have lo: "2 powi (ilog2 x) \<le> x" by (simp add: e)
  have "n + 1 \<le> 2 ^ nat (bitlen n)" using b(2) by simp
  then have "(of_int (n + 1) :: real) \<le> of_int (2 ^ nat (bitlen n))" by (simp only: of_int_le_iff)
  moreover have "x < of_int (n + 1)" by (simp add: n_def)
  ultimately have "x < of_int (2 ^ nat (bitlen n))" by linarith
  also have "\<dots> = 2 powi (bitlen n)" using bl by (simp add: power_int_def)
  finally have "x < 2 powi (ilog2 x + 1)" by (simp add: e)
  with lo show ?thesis by simp
next
  case False
  then have x1: "x < 1" by simp
  define n where "n = \<lceil>1 / x\<rceil> - 1"
  have "1 < 1 / x" using assms x1 by simp
  then have n1: "1 \<le> n" by (simp add: n_def less_ceiling_iff)
  then have "0 < n" by simp
  from bitlen_bounds [OF this]
  have b: "2 ^ nat (bitlen n - 1) \<le> n" "n < 2 ^ nat (bitlen n)" by simp_all
  have bl: "1 \<le> bitlen n" using n1 by (simp add: bitlen_def floorlog_def)
  have e: "ilog2 x = - bitlen n" using False by (simp add: ilog2_def n_def)
  have p: "(2::real) powi (- bitlen n) = 1 / 2 ^ nat (bitlen n)"
    using bl by (simp add: power_int_def field_simps)
  have p1: "(2::real) powi (- bitlen n + 1) = 1 / 2 ^ nat (bitlen n - 1)"
    using bl by (simp add: power_int_def field_simps)
  have "n + 1 \<le> 2 ^ nat (bitlen n)" using b(2) by simp
  then have "(of_int (n + 1) :: real) \<le> of_int (2 ^ nat (bitlen n))" by (simp only: of_int_le_iff)
  moreover have "1 / x \<le> of_int (n + 1)" by (simp add: n_def)
  ultimately have "1 / x \<le> 2 ^ nat (bitlen n)" by simp
  then have lo: "1 / 2 ^ nat (bitlen n) \<le> x" using assms by (simp add: field_simps)
  have "(2::real) ^ nat (bitlen n - 1) = of_int (2 ^ nat (bitlen n - 1))" by simp
  also have "\<dots> \<le> of_int n" using b(1) by (simp only: of_int_le_iff)
  also have "of_int n < 1 / x" unfolding n_def using ceiling_correct [of "1 / x"] by simp
  finally have "2 ^ nat (bitlen n - 1) < 1 / x" .
  then have hi: "x < 1 / 2 ^ nat (bitlen n - 1)" using assms by (simp add: field_simps)
  have "- bitlen n + 1 = ilog2 x + 1" by (simp add: e)
  with lo hi p p1 show ?thesis by (simp add: e)
qed

lemma rne_nearest: "\<bar>of_int (rne r) - r\<bar> \<le> \<bar>of_int n - r\<bar>"
proof -
  define f where "f = \<lfloor>r\<rfloor>"
  define d where "d = r - of_int f"
  have d: "0 \<le> d" "d < 1" by (simp_all add: d_def f_def) linarith
  have r: "r = of_int f + d" by (simp add: d_def)
  consider "n \<le> f" | "f + 1 \<le> n" by linarith
  then have dist: "\<bar>of_int n - r\<bar> \<ge> min d (1 - d)"
  proof cases
    case 1
    then have "(of_int n :: real) \<le> of_int f" by simp
    then show ?thesis using d by (simp add: r)
  next
    case 2
    then have "(of_int (f + 1) :: real) \<le> of_int n" by (simp only: of_int_le_iff)
    then show ?thesis using d by (simp add: r)
  qed
  have "\<bar>of_int (rne r) - r\<bar> = min d (1 - d)"
    using d unfolding rne_def Let_def f_def [symmetric] d_def [symmetric]
    by (auto simp: r min_def)
  with dist show ?thesis by simp
qed

lemma rne_half: "\<bar>of_int (rne r) - r\<bar> \<le> 1 / 2"
proof -
  define f where "f = \<lfloor>r\<rfloor>"
  define d where "d = r - of_int f"
  have d: "0 \<le> d" "d < 1" by (simp_all add: d_def f_def) linarith
  have r: "r = of_int f + d" by (simp add: d_def)
  show ?thesis
    using d unfolding rne_def Let_def f_def [symmetric] d_def [symmetric]
    by (auto simp: r)
qed

lemma rne_of_int: "rne (of_int n) = n"
  using rne_nearest [of "of_int n" n] by simp

lemma pow2_pos: "0 < (2::real) powi k"
  by simp

lemma pow2_add: "(2::real) powi (a + b) = 2 powi a * 2 powi b"
  by (simp add: power_int_add)

lemma pow2_mono: "a \<le> b \<Longrightarrow> (2::real) powi a \<le> 2 powi b"
  by (rule power_int_increasing) simp_all

lemma pow2_nat: "0 \<le> k \<Longrightarrow> (2::real) powi k = of_int (2 ^ nat k)"
  by (simp add: power_int_def)

lemma round_to_nearest:
  assumes f: "representable p emin f" and p: "1 \<le> p"
  shows "\<bar>round_to p emin x - x\<bar> \<le> \<bar>f - x\<bar>"
proof (cases "x = 0")
  case True
  then show ?thesis by (simp add: round_to_def)
next
  case False
  define e where "e = max (ilog2 \<bar>x\<bar>) emin"
  define q :: real where "q = 2 powi (e - (int p - 1))"
  define r where "r = x / q"
  have q: "0 < q" by (simp add: q_def)
  have x: "x = r * q" using q by (simp add: r_def)
  have rd: "round_to p emin x = of_int (rne r) * q"
    using False by (simp add: round_to_def Let_def e_def q_def r_def)
  have scale: "\<bar>round_to p emin x - x\<bar> \<le> \<bar>of_int n * q - x\<bar>" for n
  proof -
    have "round_to p emin x - x = (of_int (rne r) - r) * q"
      unfolding rd left_diff_distrib using x by simp
    then have "\<bar>round_to p emin x - x\<bar> = \<bar>of_int (rne r) - r\<bar> * q"
      using q by (simp add: abs_mult)
    also have "\<dots> \<le> \<bar>of_int n - r\<bar> * q"
      using rne_nearest [of r n] q by (intro mult_right_mono) simp_all
    also have "\<dots> = \<bar>(of_int n - r) * q\<bar>"
      using q by (simp add: abs_mult)
    also have "(of_int n - r) * q = of_int n * q - x"
      unfolding left_diff_distrib using x by simp
    finally show ?thesis .
  qed
  from f obtain m k where mk: "f = of_int m * 2 powi k" "\<bar>m\<bar> < 2 ^ p" "emin - (int p - 1) \<le> k"
    unfolding representable_def by blast
  show ?thesis
  proof (cases "e - (int p - 1) \<le> k")
    case True
    define j where "j = k - (e - (int p - 1))"
    have j: "0 \<le> j" using True by (simp add: j_def)
    have "(2::real) powi k = 2 powi j * q"
      unfolding q_def pow2_add [symmetric] by (simp add: j_def)
    then have "f = of_int (m * 2 ^ nat j) * q"
      using j by (simp add: mk(1) pow2_nat)
    with scale [of "m * 2 ^ nat j"] show ?thesis by simp
  next
    case False
    then have ke: "k + int p \<le> e" by simp
    with mk(3) have "emin < e" by linarith
    then have e: "e = ilog2 \<bar>x\<bar>" by (simp add: e_def max_def split: if_splits)
    have ax: "0 < \<bar>x\<bar>" using \<open>x \<noteq> 0\<close> by simp
    from ilog2_bounds [OF ax] have lo: "2 powi e \<le> \<bar>x\<bar>" by (simp add: e)
    have "\<bar>f\<bar> = of_int \<bar>m\<bar> * 2 powi k" by (simp add: mk(1) abs_mult)
    also have "\<dots> < of_int (2 ^ p) * 2 powi k"
      using mk(2) by (intro mult_strict_right_mono) (simp_all only: of_int_less_iff pow2_pos)
    also have "\<dots> = 2 powi (int p + k)"
      by (simp add: pow2_add)
    also have "\<dots> \<le> 2 powi e" using ke by (intro pow2_mono) simp
    finally have fe: "\<bar>f\<bar> < 2 powi e" .
    have pe: "(2::real) powi e = of_int (2 ^ (p - 1)) * q"
    proof -
      have "(2::real) powi e = 2 powi (int (p - 1) + (e - (int p - 1)))"
        using p by simp
      also have "\<dots> = of_int (2 ^ (p - 1)) * q"
        unfolding pow2_add q_def by simp
      finally show ?thesis .
    qed
    show ?thesis
    proof (cases "0 < x")
      case True
      from scale [of "2 ^ (p - 1)"] have "\<bar>round_to p emin x - x\<bar> \<le> \<bar>2 powi e - x\<bar>"
        by (simp only: pe)
      then show ?thesis using lo fe True by linarith
    next
      case False
      from scale [of "- (2 ^ (p - 1))"] have "\<bar>round_to p emin x - x\<bar> \<le> \<bar>- (2 powi e) - x\<bar>"
        by (simp only: pe of_int_minus mult_minus_left)
      then show ?thesis using lo fe False by linarith
    qed
  qed
qed

lemma round_to_exact:
  "representable p emin f \<Longrightarrow> 1 \<le> p \<Longrightarrow> round_to p emin f = f"
  using round_to_nearest [of p emin f f] by simp

lemma round_to_le:
  assumes "representable p emin f" and "1 \<le> p" and "x \<le> f"
  shows "round_to p emin x \<le> f"
  using round_to_nearest [OF assms(1,2), of x] assms(3) by linarith

lemma round_to_ge:
  assumes "representable p emin f" and "1 \<le> p" and "f \<le> x"
  shows "f \<le> round_to p emin x"
  using round_to_nearest [OF assms(1,2), of x] assms(3) by linarith

lemma rne_bounds: "\<lfloor>r\<rfloor> \<le> rne r \<and> rne r \<le> \<lceil>r\<rceil>"
proof -
  have "\<lfloor>r\<rfloor> \<le> rne r" by (simp add: rne_def Let_def)
  moreover have "rne r \<le> \<lceil>r\<rceil>"
  proof (cases "r = of_int \<lfloor>r\<rfloor>")
    case True
    then have "r - of_int \<lfloor>r\<rfloor> = 0" by simp
    then have "rne r = \<lfloor>r\<rfloor>" unfolding rne_def Let_def by simp
    then show ?thesis by simp
  next
    case False
    then have "\<lceil>r\<rceil> = \<lfloor>r\<rfloor> + 1" by (metis ceiling_altdef)
    then show ?thesis by (simp add: rne_def Let_def)
  qed
  ultimately show ?thesis by simp
qed

lemma representableI:
  "\<bar>m\<bar> < 2 ^ p \<Longrightarrow> emin - (int p - 1) \<le> k \<Longrightarrow> representable p emin (of_int m * 2 powi k)"
  unfolding representable_def by blast

lemma representable_round_to:
  assumes p: "1 \<le> p"
  shows "representable p emin (round_to p emin x)"
proof (cases "x = 0")
  case True
  have "representable p emin (of_int 0 * 2 powi (emin - (int p - 1)))"
    by (rule representableI) simp_all
  then show ?thesis using True by (simp add: round_to_def)
next
  case False
  define e where "e = max (ilog2 \<bar>x\<bar>) emin"
  define k where "k = e - (int p - 1)"
  define q :: real where "q = 2 powi k"
  define r where "r = x / q"
  define m where "m = rne r"
  have q: "0 < q" by (simp add: q_def)
  have rd: "round_to p emin x = of_int m * q"
    using False by (simp add: round_to_def Let_def e_def q_def r_def m_def k_def)
  have k: "emin - (int p - 1) \<le> k" by (simp add: k_def e_def)
  have ax: "0 < \<bar>x\<bar>" using False by simp
  have "\<bar>x\<bar> < 2 powi (ilog2 \<bar>x\<bar> + 1)" using ilog2_bounds [OF ax] by simp
  also have "\<dots> \<le> 2 powi (e + 1)" by (intro pow2_mono) (simp add: e_def)
  also have "\<dots> = 2 powi (int p + k)" by (simp add: k_def)
  also have "\<dots> = 2 ^ p * q" by (simp add: pow2_add q_def)
  finally have "\<bar>x\<bar> / q < 2 ^ p" using q by (simp add: field_simps)
  then have "\<bar>r\<bar> < of_int (2 ^ p)" using q by (simp add: r_def)
  then have "r < of_int (2 ^ p)" "of_int (- (2 ^ p)) < r" by (simp_all add: abs_less_iff)
  then have "\<lceil>r\<rceil> \<le> 2 ^ p" "- (2 ^ p) \<le> \<lfloor>r\<rfloor>"
    by (simp_all only: ceiling_le_iff le_floor_iff less_imp_le)
  with rne_bounds [of r] have mb: "\<bar>m\<bar> \<le> 2 ^ p" by (simp add: m_def abs_le_iff)
  show ?thesis
  proof (cases "\<bar>m\<bar> < 2 ^ p")
    case True
    then show ?thesis unfolding rd q_def using k by (rule representableI)
  next
    case False
    with mb have "\<bar>m\<bar> = 2 ^ p" by simp
    then have "m = 2 ^ p \<or> m = - (2 ^ p)" by (simp add: abs_if split: if_splits)
    then obtain s :: int where s: "m = s * 2 ^ p" "\<bar>s\<bar> = 1" by (auto intro: that [of 1] that [of "- 1"])
    have "of_int m * q = of_int (s * 2 ^ (p - 1)) * 2 powi (k + 1)"
    proof -
      have "(2::real) ^ p = 2 ^ (p - 1) * 2" using p by (cases p) simp_all
      then show ?thesis by (simp add: s(1) q_def pow2_add)
    qed
    moreover have "representable p emin (of_int (s * 2 ^ (p - 1)) * 2 powi (k + 1))"
    proof (rule representableI)
      have "(2::int) ^ (p - 1) < 2 ^ p" using p by (intro power_strict_increasing) simp_all
      then show "\<bar>s * 2 ^ (p - 1)\<bar> < 2 ^ p" by (simp add: abs_mult s(2))
      show "emin - (int p - 1) \<le> k + 1" using k by simp
    qed
    ultimately show ?thesis by (simp add: rd)
  qed
qed

lemma round_to_mono:
  assumes p: "1 \<le> p" and xy: "x \<le> y"
  shows "round_to p emin x \<le> round_to p emin y"
proof (rule ccontr)
  assume "\<not> ?thesis"
  then have lt: "round_to p emin y < round_to p emin x" by simp
  note rx = representable_round_to [OF p, of emin x]
  note ry = representable_round_to [OF p, of emin y]
  have a: "y < round_to p emin x" using round_to_ge [OF rx p, of y] lt by linarith
  have b: "round_to p emin y < x" using round_to_le [OF ry p, of x] lt by linarith
  from round_to_nearest [OF ry p, of x] round_to_nearest [OF rx p, of y] a b xy
  have "x = y" by linarith
  with lt show False by simp
qed


section \<open>IEEE single precision\<close>

lemma single_ieee: "single ieee = round_to 24 (- 126)"
  by (simp add: ieee_def)

lemma double_ieee: "double ieee = round_to 53 (- 1022)"
  by (simp add: ieee_def)

lemma f32_scaled:
  "\<bar>m\<bar> < 2 ^ 24 \<Longrightarrow> - 149 \<le> k \<Longrightarrow> representable 24 (- 126) (of_int m * 2 powi k)"
  by (rule representableI) simp_all

lemma f32_int:
  assumes "\<bar>n\<bar> \<le> 2 ^ 24"
  shows "representable 24 (- 126) (of_int n)"
proof (cases "\<bar>n\<bar> < 2 ^ 24")
  case True
  then have "representable 24 (- 126) (of_int n * 2 powi 0)" by (rule f32_scaled) simp
  then show ?thesis by simp
next
  case False
  with assms have "n = 2 ^ 24 \<or> n = - (2 ^ 24)" by (simp add: abs_if split: if_splits)
  then obtain s :: int where s: "n = s * 2 ^ 23 * 2" "\<bar>s\<bar> = 1"
    by (auto intro: that [of 1] that [of "- 1"])
  have "representable 24 (- 126) (of_int (s * 2 ^ 23) * 2 powi 1)"
    by (rule f32_scaled) (simp_all add: abs_mult s(2))
  then show ?thesis by (simp add: s(1))
qed

lemma single_exact: "representable 24 (- 126) f \<Longrightarrow> single ieee f = f"
  by (simp add: single_ieee round_to_exact)

lemma single_int: "\<bar>n\<bar> \<le> 2 ^ 24 \<Longrightarrow> single ieee (of_int n) = of_int n"
  by (simp add: single_exact f32_int)

lemma single_mono: "x \<le> y \<Longrightarrow> single ieee x \<le> single ieee y"
  by (simp add: single_ieee round_to_mono)

lemma single_le: "representable 24 (- 126) f \<Longrightarrow> x \<le> f \<Longrightarrow> single ieee x \<le> f"
  by (simp add: single_ieee round_to_le)

lemma single_ge: "representable 24 (- 126) f \<Longrightarrow> f \<le> x \<Longrightarrow> f \<le> single ieee x"
  by (simp add: single_ieee round_to_ge)


subsection \<open>The luminance of a pixel\<close>

lemma single_0: "single ieee 0 = 0"
  by (simp add: ieee_def round_to_def)

lemma single_nonneg: "0 \<le> x \<Longrightarrow> 0 \<le> single ieee x"
  using single_mono [of 0 x] by (simp add: single_0)

lemma single_1: "single ieee 1 = 1"
  using single_int [of 1] by simp

lemma luma_consts:
  "single ieee (2126/10000) = 891709/4194304"
  "single ieee (7152/10000) = 11999065/16777216"
  "single ieee (722/10000) = 1211315/16777216"
  "single ieee 255 = 255"
  by code_simp+

lemma luma_white_steps:
  "single ieee (891709/4194304 * 255) = 3552903/65536"
  "single ieee (11999065/16777216 * 255) = 5976097/32768"
  "single ieee (1211315/16777216 * 255) = 4826333/262144"
  "single ieee (3552903/65536 + 5976097/32768) = 15505097/65536"
  "single ieee (15505097/65536 + 4826333/262144) = 255"
  by code_simp+

lemma byte_value:
  "(0::real) \<le> unsigned (v :: 8 word)" "(unsigned v :: real) \<le> 255"
  "single ieee (unsigned v) = unsigned v"
proof -
  have "unat v < 2 ^ LENGTH(8)" by (rule unsigned_less)
  then have b: "unat v \<le> 255" by simp
  then have "real (unat v) \<le> real 255" by (rule of_nat_mono)
  then show "(unsigned v :: real) \<le> 255" by simp
  have "(0::real) \<le> real (unat v)" by (rule of_nat_0_le_iff)
  then show "(0::real) \<le> unsigned v" by simp
  have "int (unat v) \<le> int 255" using b by (rule of_nat_mono)
  moreover have "0 \<le> int (unat v)" by (rule of_nat_0_le_iff)
  moreover have "(2::int) ^ 24 = 16777216" by simp
  ultimately have "\<bar>int (unat v)\<bar> \<le> 2 ^ 24" by linarith
  then have "single ieee (of_int (int (unat v))) = of_int (int (unat v))"
    by (rule single_int)
  then show "single ieee (unsigned v) = unsigned v" by simp
qed

lemma luma_range: "0 \<le> luma ieee px \<and> luma ieee px \<le> 1"
proof -
  obtain r g b where px: "px = (r, g, b)" by (cases px) auto
  define R G B :: real where "R = unsigned r" and "G = unsigned g" and "B = unsigned b"
  have R: "0 \<le> R" "R \<le> 255" and G: "0 \<le> G" "G \<le> 255" and B: "0 \<le> B" "B \<le> 255"
    by (simp_all add: R_def G_def B_def byte_value)
  define p1 p2 p3 where "p1 = single ieee (891709/4194304 * R)"
    and "p2 = single ieee (11999065/16777216 * G)" and "p3 = single ieee (1211315/16777216 * B)"
  have "891709/4194304 * R \<le> 891709/4194304 * 255" using R by simp
  then have "single ieee (891709/4194304 * R) \<le> single ieee (891709/4194304 * 255)"
    by (rule single_mono)
  then have p1: "p1 \<le> 3552903/65536" unfolding p1_def luma_white_steps(1) .
  have p1': "0 \<le> p1" unfolding p1_def by (rule single_nonneg) (use R in simp)
  have "11999065/16777216 * G \<le> 11999065/16777216 * 255" using G by simp
  then have "single ieee (11999065/16777216 * G) \<le> single ieee (11999065/16777216 * 255)"
    by (rule single_mono)
  then have p2: "p2 \<le> 5976097/32768" unfolding p2_def luma_white_steps(2) .
  have p2': "0 \<le> p2" unfolding p2_def by (rule single_nonneg) (use G in simp)
  have "1211315/16777216 * B \<le> 1211315/16777216 * 255" using B by simp
  then have "single ieee (1211315/16777216 * B) \<le> single ieee (1211315/16777216 * 255)"
    by (rule single_mono)
  then have p3: "p3 \<le> 4826333/262144" unfolding p3_def luma_white_steps(3) .
  have p3': "0 \<le> p3" unfolding p3_def by (rule single_nonneg) (use B in simp)
  define s1 where "s1 = single ieee (p1 + p2)"
  have "p1 + p2 \<le> 3552903/65536 + 5976097/32768" using p1 p2 by (rule add_mono)
  then have "single ieee (p1 + p2) \<le> single ieee (3552903/65536 + 5976097/32768)"
    by (rule single_mono)
  then have s1: "s1 \<le> 15505097/65536" unfolding s1_def luma_white_steps(4) .
  have s1': "0 \<le> s1" unfolding s1_def by (rule single_nonneg) (use p1' p2' in simp)
  define s2 where "s2 = single ieee (s1 + p3)"
  have "s1 + p3 \<le> 15505097/65536 + 4826333/262144" using s1 p3 by (rule add_mono)
  then have "single ieee (s1 + p3) \<le> single ieee (15505097/65536 + 4826333/262144)"
    by (rule single_mono)
  then have s2: "s2 \<le> 255" unfolding s2_def luma_white_steps(5) .
  have s2': "0 \<le> s2" unfolding s2_def by (rule single_nonneg) (use s1' p3' in simp)
  have l: "luma ieee px = single ieee (s2 / 255)"
    unfolding px luma_def prod.case of_nat_unat luma_consts byte_value
      s2_def s1_def p1_def p2_def p3_def R_def G_def B_def ..
  have "0 \<le> s2 / 255" "s2 / 255 \<le> 1" using s2 s2' by simp_all
  then show ?thesis
    using single_nonneg [of "s2 / 255"] single_mono [of "s2 / 255" 1]
    by (simp only: l single_1)
qed

subsection \<open>Double precision and the luminance of a cell\<close>

lemma round_to_abs_error:
  assumes x: "\<bar>x\<bar> \<le> 2 powi E" and E: "emin \<le> E"
  shows "\<bar>round_to p emin x - x\<bar> \<le> 2 powi (E - int p)"
proof (cases "x = 0")
  case True
  then show ?thesis by (simp add: round_to_def)
next
  case False
  define e where "e = max (ilog2 \<bar>x\<bar>) emin"
  define q :: real where "q = 2 powi (e - (int p - 1))"
  define r where "r = x / q"
  have q: "0 < q" by (simp add: q_def)
  have xr: "x = r * q" using q by (simp add: r_def)
  have rd: "round_to p emin x = of_int (rne r) * q"
    using False by (simp add: round_to_def Let_def e_def q_def r_def)
  have ax: "0 < \<bar>x\<bar>" using False by simp
  have "ilog2 \<bar>x\<bar> \<le> E"
  proof (rule ccontr)
    assume "\<not> ilog2 \<bar>x\<bar> \<le> E"
    then have "(2::real) powi (E + 1) \<le> 2 powi (ilog2 \<bar>x\<bar>)" by (intro pow2_mono) simp
    moreover have "(2::real) powi E < 2 powi (E + 1)" by (simp add: pow2_add)
    ultimately show False using ilog2_bounds [OF ax] x by linarith
  qed
  then have eE: "e \<le> E" using E by (simp add: e_def)
  have "round_to p emin x - x = (of_int (rne r) - r) * q"
    unfolding rd left_diff_distrib using xr by simp
  then have "\<bar>round_to p emin x - x\<bar> = \<bar>of_int (rne r) - r\<bar> * q"
    using q by (simp add: abs_mult)
  also have "\<dots> \<le> (1 / 2) * q"
    using rne_half [of r] q by (intro mult_right_mono) simp_all
  also have "\<dots> = 2 powi (e - int p)"
  proof -
    have "e - (int p - 1) = (e - int p) + 1" by simp
    then have "q = 2 powi (e - int p) * 2 powi 1" unfolding q_def by (simp only: pow2_add)
    then show ?thesis by simp
  qed
  also have "\<dots> \<le> 2 powi (E - int p)" using eE by (intro pow2_mono) simp
  finally show ?thesis .
qed

lemma round_to_half_ulp:
  assumes x: "\<bar>x\<bar> < 2 powi E" and E: "emin < E"
  shows "\<bar>round_to p emin x - x\<bar> \<le> 2 powi (E - 1 - int p)"
proof (cases "x = 0")
  case True
  then show ?thesis by (simp add: round_to_def)
next
  case False
  define e where "e = max (ilog2 \<bar>x\<bar>) emin"
  define q :: real where "q = 2 powi (e - (int p - 1))"
  define r where "r = x / q"
  have q: "0 < q" by (simp add: q_def)
  have xr: "x = r * q" using q by (simp add: r_def)
  have rd: "round_to p emin x = of_int (rne r) * q"
    using False by (simp add: round_to_def Let_def e_def q_def r_def)
  have ax: "0 < \<bar>x\<bar>" using False by simp
  have "ilog2 \<bar>x\<bar> < E"
  proof (rule ccontr)
    assume "\<not> ilog2 \<bar>x\<bar> < E"
    then have "(2::real) powi E \<le> 2 powi (ilog2 \<bar>x\<bar>)" by (intro pow2_mono) simp
    then show False using ilog2_bounds [OF ax] x by linarith
  qed
  then have eE: "e \<le> E - 1" using E by (simp add: e_def)
  have "round_to p emin x - x = (of_int (rne r) - r) * q"
    unfolding rd left_diff_distrib using xr by simp
  then have "\<bar>round_to p emin x - x\<bar> = \<bar>of_int (rne r) - r\<bar> * q"
    using q by (simp add: abs_mult)
  also have "\<dots> \<le> (1 / 2) * q"
    using rne_half [of r] q by (intro mult_right_mono) simp_all
  also have "\<dots> = 2 powi (e - int p)"
  proof -
    have "e - (int p - 1) = (e - int p) + 1" by simp
    then have "q = 2 powi (e - int p) * 2 powi 1" unfolding q_def by (simp only: pow2_add)
    then show ?thesis by simp
  qed
  also have "\<dots> \<le> 2 powi (E - 1 - int p)" using eE by (intro pow2_mono) simp
  finally show ?thesis .
qed

lemma representable_scale:
  assumes "representable p emin f" and "0 \<le> j"
  shows "representable p emin (f * 2 powi j)"
proof -
  from assms(1) obtain m k where mk: "f = of_int m * 2 powi k" "\<bar>m\<bar> < 2 ^ p" "emin - (int p - 1) \<le> k"
    unfolding representable_def by blast
  have "f * 2 powi j = of_int m * 2 powi (k + j)" by (simp add: mk(1) pow2_add)
  moreover have "representable p emin (of_int m * 2 powi (k + j))"
    using mk(2) by (rule representableI) (use mk(3) assms(2) in simp)
  ultimately show ?thesis by simp
qed

lemma f64_int:
  assumes "\<bar>n\<bar> \<le> 2 ^ 53"
  shows "representable 53 (- 1022) (of_int n)"
proof (cases "\<bar>n\<bar> < 2 ^ 53")
  case True
  then have "representable 53 (- 1022) (of_int n * 2 powi 0)" by (rule representableI) simp
  then show ?thesis by simp
next
  case False
  with assms have "n = 2 ^ 53 \<or> n = - (2 ^ 53)" by (simp add: abs_if split: if_splits)
  then obtain s :: int where s: "n = s * 2 ^ 52 * 2" "\<bar>s\<bar> = 1"
    by (auto intro: that [of 1] that [of "- 1"])
  have "representable 53 (- 1022) (of_int (s * 2 ^ 52) * 2 powi 1)"
    by (rule representableI) (simp_all add: abs_mult s(2))
  then show ?thesis by (simp add: s(1))
qed

lemma double_int: "\<bar>n\<bar> \<le> 2 ^ 53 \<Longrightarrow> double ieee (of_int n) = of_int n"
  by (simp add: double_ieee round_to_exact f64_int)

lemma double_mono: "x \<le> y \<Longrightarrow> double ieee x \<le> double ieee y"
  by (simp add: double_ieee round_to_mono)

lemma double_0: "double ieee 0 = 0"
  by (simp add: ieee_def round_to_def)

lemma double_1: "double ieee 1 = 1"
  using double_int [of 1] by simp

lemma double_nonneg: "0 \<le> x \<Longrightarrow> 0 \<le> double ieee x"
  using double_mono [of 0 x] by (simp add: double_0)

lemma scan_row_range:
  assumes "scan_row ieee img w c sy sxs (s, n) = Some (s', n')"
    and "0 \<le> s" and "s \<le> of_int n" and "0 \<le> n" and "n + int (length sxs) \<le> 2 ^ 53"
  shows "0 \<le> s' \<and> s' \<le> of_int n' \<and> n' = n + int (length sxs)"
  using assms
proof (induction sxs arbitrary: s n)
  case Nil
  then show ?case by simp
next
  case (Cons sx sxs)
  from Cons.prems(1) obtain px where px: "pixel_rgb img w c sy sx = Some px"
    and rest: "scan_row ieee img w c sy sxs (double ieee (s + luma ieee px), n + 1) = Some (s', n')"
    by (auto split: option.splits)
  have l: "0 \<le> luma ieee px" "luma ieee px \<le> 1" using luma_range [of px] by simp_all
  have a: "0 \<le> double ieee (s + luma ieee px)"
    by (rule double_nonneg) (use l Cons.prems(2) in simp)
  have "\<bar>n + 1\<bar> \<le> 2 ^ 53" using Cons.prems(4,5) by simp
  then have "double ieee (of_int (n + 1)) = of_int (n + 1)" by (rule double_int)
  moreover have "double ieee (s + luma ieee px) \<le> double ieee (of_int (n + 1))"
    by (rule double_mono) (use l Cons.prems(3) in simp)
  ultimately have b: "double ieee (s + luma ieee px) \<le> of_int (n + 1)" by simp
  from Cons.IH [OF rest a b] Cons.prems(4,5) show ?case by simp
qed

lemma scan_rect_range:
  assumes "scan_rect ieee img w c sys sxs (s, n) = Some (s', n')"
    and "0 \<le> s" and "s \<le> of_int n" and "0 \<le> n"
    and "n + int (length sys) * int (length sxs) \<le> 2 ^ 53"
  shows "0 \<le> s' \<and> s' \<le> of_int n' \<and> n' = n + int (length sys) * int (length sxs)"
  using assms
proof (induction sys arbitrary: s n)
  case Nil
  then show ?case by simp
next
  case (Cons sy sys)
  from Cons.prems(1) obtain s1 n1 where row: "scan_row ieee img w c sy sxs (s, n) = Some (s1, n1)"
    and rest: "scan_rect ieee img w c sys sxs (s1, n1) = Some (s', n')"
    by (auto split: option.splits)
  have le: "n + int (length sxs) \<le> n + int (length (sy # sys)) * int (length sxs)"
    by (simp add: algebra_simps)
  with Cons.prems(5) have "n + int (length sxs) \<le> 2 ^ 53" by linarith
  from scan_row_range [OF row Cons.prems(2,3,4) this]
  have r: "0 \<le> s1" "s1 \<le> of_int n1" "n1 = n + int (length sxs)" by simp_all
  have n1: "0 \<le> n1" using r(3) Cons.prems(4) by simp
  have "n1 + int (length sys) * int (length sxs) \<le> 2 ^ 53"
    using Cons.prems(5) r(3) by (simp add: algebra_simps)
  from Cons.IH [OF rest r(1,2) n1 this]
  have i: "0 \<le> s'" "s' \<le> of_int n'" "n' = n1 + int (length sys) * int (length sxs)"
    by blast+
  have "n' = n + int (length (sy # sys)) * int (length sxs)"
    unfolding i(3) r(3) by (simp add: algebra_simps)
  with i(1,2) show ?case by blast
qed

lemma cell_luminance_range:
  assumes "cell_luminance ieee img w c ys xs = Some l"
    and "int (length [fst ys..snd ys - 1]) * int (length [fst xs..snd xs - 1]) \<le> 2 ^ 53"
  shows "0 \<le> l \<and> l \<le> 1"
proof -
  from assms(1) obtain s n where
    sc: "scan_rect ieee img w c [fst ys..snd ys - 1] [fst xs..snd xs - 1] (0, 0) = Some (s, n)"
    and l: "l = (if n > 0 then single ieee (double ieee (s / double ieee (of_int n)))
                 else single ieee 0)"
    by (auto simp: cell_luminance_def double_0 split: bind_splits)
  have pre: "0 + int (length [fst ys..snd ys - 1]) * int (length [fst xs..snd xs - 1]) \<le> 2 ^ 53"
    using assms(2) by linarith
  have "0 \<le> s \<and> s \<le> of_int n \<and>
      n = 0 + int (length [fst ys..snd ys - 1]) * int (length [fst xs..snd xs - 1])"
    by (rule scan_rect_range [OF sc _ _ _ pre]) simp_all
  then have r: "0 \<le> s" "s \<le> of_int n" "n \<le> 2 ^ 53" using pre by blast+
  show ?thesis
  proof (cases "n > 0")
    case True
    then have "\<bar>n\<bar> \<le> 2 ^ 53" using r(3) by simp
    then have dn: "double ieee (of_int n) = of_int n" by (rule double_int)
    have q: "0 \<le> s / of_int n" "s / of_int n \<le> 1" using r True by simp_all
    have d: "0 \<le> double ieee (s / of_int n)" "double ieee (s / of_int n) \<le> 1"
      using double_nonneg [OF q(1)] double_mono [OF q(2)] by (simp_all add: double_1)
    have "0 \<le> single ieee (double ieee (s / of_int n))"
      "single ieee (double ieee (s / of_int n)) \<le> 1"
      using single_nonneg [OF d(1)] single_mono [OF d(2)] by (simp_all add: single_1)
    then show ?thesis using True by (simp add: l dn)
  next
    case False
    then show ?thesis by (simp add: l single_0)
  qed
qed

section \<open>The ramps\<close>

text \<open>
  Claim C5: the default ramp is the constant \<^verbatim>\<open>@%#*+=-:. \<close> (ten glyphs, dark to light) and
  the inverted ramp is its exact character reverse.
\<close>

theorem ramps_fixed:
  "RAMP_DEFAULT = ''@%#*+=-:. '' \<and> RAMP_INVERT = rev RAMP_DEFAULT"
  by (simp add: RAMP_DEFAULT_def RAMP_INVERT_def)


section \<open>The width argument\<close>



text \<open>
  What \<open>atoi\<close> reads: white space \<open>ws\<close>, a sign \<open>sg\<close> or none, the digits \<open>ds\<close>, and a
  rest that does not continue the digits and, when there is neither sign nor digit, does
  not start with white space or a sign. Every string is of this shape.
\<close>

lemma width_argument_shape:
  "\<exists>ws sg ds rest. s = ws @ sg @ ds @ rest \<and> list_all isspace ws \<and>
     (sg = [] \<or> sg = ''+'' \<or> sg = ''-'') \<and> list_all isdigit ds \<and>
     (rest = [] \<or> \<not> isdigit (hd rest)) \<and>
     (sg = [] \<and> ds = [] \<longrightarrow>
        rest = [] \<or> \<not> isspace (hd rest) \<and> hd rest \<noteq> CHR ''+'' \<and> hd rest \<noteq> CHR ''-'')"
proof -
  define ws where "ws = takeWhile isspace s"
  define s1 where "s1 = dropWhile isspace s"
  define sg where "sg = (if s1 \<noteq> [] \<and> (hd s1 = CHR ''-'' \<or> hd s1 = CHR ''+'') then [hd s1] else [])"
  define s2 where "s2 = (if s1 \<noteq> [] \<and> (hd s1 = CHR ''-'' \<or> hd s1 = CHR ''+'') then tl s1 else s1)"
  define ds where "ds = takeWhile isdigit s2"
  define rest where "rest = dropWhile isdigit s2"
  have a: "s = ws @ s1" by (simp add: ws_def s1_def)
  have b: "s1 = sg @ s2" by (cases s1) (auto simp: sg_def s2_def)
  have c: "s2 = ds @ rest" by (simp add: ds_def rest_def)
  have 1: "list_all isspace ws" unfolding ws_def list_all_iff by (auto dest: set_takeWhileD)
  have 2: "sg = [] \<or> sg = ''+'' \<or> sg = ''-''" by (auto simp: sg_def)
  have 3: "list_all isdigit ds" unfolding ds_def list_all_iff by (auto dest: set_takeWhileD)
  have 4: "rest = [] \<or> \<not> isdigit (hd rest)" unfolding rest_def using hd_dropWhile by blast
  have 5: "s1 = [] \<or> \<not> isspace (hd s1)" unfolding s1_def using hd_dropWhile by blast
  have 6: "rest = [] \<or> \<not> isspace (hd rest) \<and> hd rest \<noteq> CHR ''+'' \<and> hd rest \<noteq> CHR ''-''"
    if "sg = []" "ds = []"
  proof -
    from that(1) have n: "\<not> (s1 \<noteq> [] \<and> (hd s1 = CHR ''-'' \<or> hd s1 = CHR ''+''))"
      by (auto simp: sg_def split: if_splits)
    then have "s2 = s1" unfolding s2_def by (simp only: if_False)
    with c that(2) have "rest = s1" by simp
    with 5 n show ?thesis by auto
  qed
  have "s = ws @ sg @ ds @ rest" using a b c by simp
  with 1 2 3 4 6 show ?thesis by blast
qed


lemma main_loaded:
  assumes "2 \<le> length argv" and "stbi_load (argv ! 1) = Some im"
  shows "main fp stbi_load argv =
           map_option (\<lambda>txt. \<lparr>exit_code = 0, stdout = txt, stderr = []\<rparr>)
             (Option.bind (target_width_of argv) (\<lambda>tw. convert fp im tw (invert_of argv)))"
  using assms
  by (cases "target_width_of argv"; cases "convert fp im (the (target_width_of argv)) (invert_of argv)")
     (simp_all add: main_def)





section \<open>Rectangles without pixels\<close>

lemma scan_rect_no_columns: "scan_rect fp img w c sys [] acc = Some acc"
  by (induction sys) simp_all

lemma single_ieee_0: "single ieee 0 = 0" "double ieee 0 = 0"
  by (simp_all add: ieee_def round_to_def)

lemma glyph_of_zero:
  "luminance_to_char ieee 0 RAMP_DEFAULT = Some (CHR ''@'')"
  "luminance_to_char ieee 0 RAMP_INVERT = Some (CHR '' '')"
  by code_simp+

text \<open>
  Claim C8: a sample rectangle with no pixel (no row or no column) has cell luminance 0.0,
  a defined number, and the glyph mapper sends 0.0 to the first, darkest position of either
  ramp.
\<close>

theorem empty_rectangle_luminance:
  assumes "snd ys \<le> fst ys \<or> snd xs \<le> fst xs"
  shows "cell_luminance ieee img w c ys xs = Some 0 \<and>
         luminance_to_char ieee 0 RAMP_DEFAULT = Some (RAMP_DEFAULT ! 0) \<and>
         luminance_to_char ieee 0 RAMP_INVERT = Some (RAMP_INVERT ! 0)"
proof -
  have "scan_rect ieee img w c [fst ys..snd ys - 1] [fst xs..snd xs - 1] (double ieee 0, 0)
          = Some (double ieee 0, 0)"
    using assms
  proof
    assume "snd ys \<le> fst ys"
    then have "[fst ys..snd ys - 1] = []" by simp
    then show ?thesis by simp
  next
    assume "snd xs \<le> fst xs"
    then have "[fst xs..snd xs - 1] = []" by simp
    then show ?thesis by (simp add: scan_rect_no_columns)
  qed
  then have "cell_luminance ieee img w c ys xs = Some 0"
    by (simp add: cell_luminance_def single_ieee_0)
  then show ?thesis
    by (simp add: glyph_of_zero) (simp add: RAMP_DEFAULT_def RAMP_INVERT_def)
qed

theorem empty_rectangle_luminance_witness:
  "cell_luminance ieee [7, 7, 7] 1 3 (0, 1) (1, 1) = Some 0 \<and>
   luminance_to_char ieee 0 RAMP_DEFAULT = Some (RAMP_DEFAULT ! 0) \<and>
   luminance_to_char ieee 0 RAMP_INVERT = Some (RAMP_INVERT ! 0)"
  using empty_rectangle_luminance [of "(0, 1)" "(1, 1)" "[7, 7, 7]" 1 3] by simp

section \<open>Buffer accesses\<close>

text \<open>
  Claim C10: with a buffer of \<open>w * h * c\<close> bytes, \<open>c\<close> the channel count after
  normalisation (1, 3 or 4), and a buffer size that is an \<^verbatim>\<open>int\<close> (as every size the
  decoder hands over is), every index read by the averaging loops of any cell is computed
  without overflow, is \<open>(sy * w + sx) * c\<close>, and lies with its offsets up to 2 when
  \<open>c \<noteq> 1\<close> inside the buffer; the averaging of the cell is defined. This holds in any
  arithmetic, since the bounds of the loops are clamped.
\<close>

theorem buffer_reads_in_bounds:
  assumes "0 < w" and "0 < h" and "c = 1 \<or> c = 3 \<or> c = 4"
    and "int (length img) = w * h * c" and "int (length img) \<le> INT_MAX"
    and "span fp oy h out_h = Some ys" and "span fp ox w out_w = Some xs"
  shows "(\<forall>sy \<in> set [fst ys..snd ys - 1]. \<forall>sx \<in> set [fst xs..snd xs - 1].
            pixel_index w c sy sx = Some ((sy * w + sx) * c) \<and>
            0 \<le> (sy * w + sx) * c \<and>
            (sy * w + sx) * c + (if c = 1 then 0 else 2) < int (length img)) \<and>
         (\<exists>lum. cell_luminance fp img w c ys xs = Some lum)"
proof -
  from span_range [of fp oy h out_h "fst ys" "snd ys"] assms
  have ys: "0 \<le> fst ys" "snd ys \<le> h" by simp_all
  from span_range [of fp ox w out_w "fst xs" "snd xs"] assms
  have xs: "0 \<le> fst xs" "snd xs \<le> w" by simp_all
  have m: "w * h * c \<le> INT_MAX" using assms(4,5) by simp
  have inb: "0 \<le> sy \<and> sy < h \<and> 0 \<le> sx \<and> sx < w"
    if "sy \<in> set [fst ys..snd ys - 1]" "sx \<in> set [fst xs..snd xs - 1]" for sy sx
    using that ys xs by simp
  have idx: "pixel_index w c sy sx = Some ((sy * w + sx) * c) \<and>
        0 \<le> (sy * w + sx) * c \<and>
        (sy * w + sx) * c + (if c = 1 then 0 else 2) < int (length img)"
    if "sy \<in> set [fst ys..snd ys - 1]" "sx \<in> set [fst xs..snd xs - 1]" for sy sx
    using inb [OF that] pixel_index_bounds [of sy h sx w c] assms(3,4) m by simp
  have "\<forall>sy \<in> set [fst ys..snd ys - 1]. \<forall>sx \<in> set [fst xs..snd xs - 1].
          \<exists>px. pixel_rgb img w c sy sx = Some px"
    using inb pixel_rgb_defined [of _ h _ w c img] assms(3,4,5) by blast
  from scan_rect_defined [OF this, of fp "double fp 0" 0]
  have "\<exists>lum. cell_luminance fp img w c ys xs = Some lum"
    by (auto simp: cell_luminance_def)
  with idx show ?thesis by blast
qed

lemma span_ex1: "span ieee 0 2 2 = Some (0, 1)" by code_simp
lemma span_ex2: "span ieee 0 2 1 = Some (0, 2)" by code_simp

theorem buffer_reads_in_bounds_witness:
  "pixel_index 2 3 1 0 = Some 6 \<and>
   (\<exists>lum. cell_luminance ieee [255,255,255, 255,255,255, 255,255,255, 0,0,0] 2 3 (0, 2) (0, 1)
       = Some lum)"
  using buffer_reads_in_bounds [of 2 2 3 "[255,255,255, 255,255,255, 255,255,255, 0,0,0]"
      ieee 0 1 "(0, 2)" 0 2 "(0, 1)"] span_ex1 span_ex2
  by (simp add: INT_MAX_def)

section \<open>Rectangles with at least one pixel\<close>









section \<open>Exit codes and streams\<close>

lemma load_error_names_file: "names_file (load_error f) f"
  unfolding names_file_def load_error_def by (metis append.assoc)

lemma main_no_file: "main fp stbi_load [prog] = Some \<lparr>exit_code = 1, stdout = [], stderr = usage prog\<rparr>"
  by (simp add: main_def)

lemma main_load_failed:
  assumes "2 \<le> length argv" and "target_width_of argv = Some tw" and "stbi_load (argv ! 1) = None"
  shows "main fp stbi_load argv = Some \<lparr>exit_code = 2, stdout = [], stderr = load_error (argv ! 1)\<rparr>"
  using assms by (simp add: main_def)

lemma usage_nonempty: "usage prog \<noteq> []"
  by (simp add: usage_def)

lemma load_error_nonempty: "load_error f \<noteq> []"
  by (simp add: load_error_def)

lemma main_cases:
  assumes "main fp stbi_load argv = Some r"
  shows "(length argv < 2 \<and> r = \<lparr>exit_code = 1, stdout = [], stderr = usage (hd argv)\<rparr>) \<or>
         (2 \<le> length argv \<and> stbi_load (argv ! 1) = None \<and>
            r = \<lparr>exit_code = 2, stdout = [], stderr = load_error (argv ! 1)\<rparr>) \<or>
         (2 \<le> length argv \<and> (\<exists>im tw txt. stbi_load (argv ! 1) = Some im \<and>
            target_width_of argv = Some tw \<and> convert fp im tw (invert_of argv) = Some txt \<and>
            r = \<lparr>exit_code = 0, stdout = txt, stderr = []\<rparr>))"
proof (cases "length argv < 2")
  case True
  with assms show ?thesis by (cases argv) (auto simp: main_def)
next
  case False
  with assms show ?thesis
    by (auto simp: main_def Let_def split: bind_splits option.splits)
qed

text \<open>
  Claim C6: without the image path the program exits with 1, prints the usage synopsis on
  the error stream and nothing on standard output; when decoding fails it exits with 2,
  prints an error naming the file on the error stream and nothing on standard output;
  it exits with 0 exactly when the image was decoded, and then the error stream is empty
  and standard output holds the grid.
\<close>

theorem exit_codes:
  "main fp stbi_load [prog] = Some \<lparr>exit_code = 1, stdout = [], stderr = usage prog\<rparr> \<and>
   usage prog \<noteq> [] \<and>
   (2 \<le> length argv \<and> target_width_of argv \<noteq> None \<and> stbi_load (argv ! 1) = None \<longrightarrow>
      main fp stbi_load argv
        = Some \<lparr>exit_code = 2, stdout = [], stderr = load_error (argv ! 1)\<rparr> \<and>
      names_file (load_error (argv ! 1)) (argv ! 1)) \<and>
   (\<forall>r. main fp stbi_load argv = Some r \<longrightarrow>
      (exit_code r = 1 \<longleftrightarrow> length argv < 2) \<and>
      (exit_code r = 2 \<longleftrightarrow> 2 \<le> length argv \<and> stbi_load (argv ! 1) = None) \<and>
      (exit_code r = 0 \<longleftrightarrow> 2 \<le> length argv \<and> stbi_load (argv ! 1) \<noteq> None) \<and>
      (exit_code r = 0 \<longrightarrow> stderr r = [] \<and>
         (\<exists>im tw. stbi_load (argv ! 1) = Some im \<and> target_width_of argv = Some tw \<and>
            convert fp im tw (invert_of argv) = Some (stdout r))) \<and>
      (exit_code r \<noteq> 0 \<longrightarrow> stdout r = [] \<and> stderr r \<noteq> []))"
proof (intro conjI impI allI)
  show "main fp stbi_load [prog] = Some \<lparr>exit_code = 1, stdout = [], stderr = usage prog\<rparr>"
    by (rule main_no_file)
  show "usage prog \<noteq> []" by (rule usage_nonempty)
next
  assume a: "2 \<le> length argv \<and> target_width_of argv \<noteq> None \<and> stbi_load (argv ! 1) = None"
  then obtain tw where "target_width_of argv = Some tw" by auto
  with a show "main fp stbi_load argv
        = Some \<lparr>exit_code = 2, stdout = [], stderr = load_error (argv ! 1)\<rparr>"
    by (intro main_load_failed) auto
  show "names_file (load_error (argv ! 1)) (argv ! 1)" by (rule load_error_names_file)
next
  fix r assume m: "main fp stbi_load argv = Some r"
  note c = main_cases [OF m]
  show "exit_code r = 1 \<longleftrightarrow> length argv < 2" using c by auto
  show "exit_code r = 2 \<longleftrightarrow> 2 \<le> length argv \<and> stbi_load (argv ! 1) = None" using c by auto
  show "exit_code r = 0 \<longleftrightarrow> 2 \<le> length argv \<and> stbi_load (argv ! 1) \<noteq> None" using c by auto
  { assume "exit_code r = 0"
    with c show "stderr r = []" by auto
    from c \<open>exit_code r = 0\<close>
    show "\<exists>im tw. stbi_load (argv ! 1) = Some im \<and> target_width_of argv = Some tw \<and>
            convert fp im tw (invert_of argv) = Some (stdout r)" by auto }
  { assume "exit_code r \<noteq> 0"
    with c show "stdout r = []" by auto
    from c \<open>exit_code r \<noteq> 0\<close> show "stderr r \<noteq> []"
      using usage_nonempty load_error_nonempty by auto }
qed

section \<open>Sampling rectangles\<close>

lemma floorf_int: "floorf x = of_int \<lfloor>x\<rfloor>" by (simp add: floorf_def)


lemma cast_int_integral: "cast_int (of_int k) = Some c \<Longrightarrow> c = k"
  by (simp add: cast_int_def split: if_splits)







section \<open>The glyph mapper\<close>

lemma single_half: "single ieee (1 / 2) = 1 / 2"
proof -
  have "representable 24 (- 126) (of_int 1 * 2 powi (- 1))" by (rule f32_scaled) simp_all
  then have "representable 24 (- 126) (1 / 2)" by (simp add: power_int_minus)
  then show ?thesis by (rule single_exact)
qed

lemma single_19_half: "single ieee (19 / 2) = 19 / 2"
proof -
  have "representable 24 (- 126) (of_int 19 * 2 powi (- 1))" by (rule f32_scaled) simp_all
  then have "representable 24 (- 126) (19 / 2)" by (simp add: power_int_minus)
  then show ?thesis by (rule single_exact)
qed

lemma single_9: "single ieee 9 = 9"
  using single_int [of 9] by simp

lemma single_abs_error:
  "\<bar>x\<bar> \<le> 2 powi E \<Longrightarrow> - 126 \<le> E \<Longrightarrow> \<bar>single ieee x - x\<bar> \<le> 2 powi (E - 24)"
  using round_to_abs_error [of x E "- 126" 24] by (simp add: single_ieee)

lemma single_half_ulp:
  "\<bar>x\<bar> < 2 powi E \<Longrightarrow> - 126 < E \<Longrightarrow> \<bar>single ieee x - x\<bar> \<le> 2 powi (E - 1 - 24)"
  using round_to_half_ulp [of x E "- 126" 24] by (simp add: single_ieee)

lemma ramp_lengths: "ramp = RAMP_DEFAULT \<or> ramp = RAMP_INVERT \<Longrightarrow> length ramp = 10"
  by (auto simp: RAMP_DEFAULT_def RAMP_INVERT_def)

lemma luminance_to_char_ieee:
  assumes "length ramp = 10"
  shows "luminance_to_char ieee l ramp =
           cast_int (of_int \<lfloor>single ieee (single ieee (l * 9) + 1 / 2)\<rfloor>) \<bind>
             (\<lambda>idx. char_at ramp (clampi idx 0 9))"
  using assms by (simp add: luminance_to_char_def floorf_def single_9 single_half)

lemma luminance_to_char_exact:
  assumes "length ramp = 10"
  shows "luminance_to_char exact l ramp =
           cast_int (of_int \<lfloor>l * 9 + 1 / 2\<rfloor>) \<bind> (\<lambda>idx. char_at ramp (clampi idx 0 9))"
  using assms by (simp add: luminance_to_char_def floorf_def exact_def)

lemma glyph_index:
  assumes "length ramp = 10" and "INT_MIN \<le> k" and "k \<le> INT_MAX"
  shows "cast_int (of_int k) \<bind> (\<lambda>idx. char_at ramp (clampi idx 0 9))
           = Some (ramp ! nat (clampi k 0 9))"
proof -
  have "0 \<le> clampi k 0 9 \<and> clampi k 0 9 \<le> 9" by (rule clampi_range) simp
  then have "char_at ramp (clampi k 0 9) = Some (ramp ! nat (clampi k 0 9))"
    using assms(1) by (simp add: char_at_def)
  then show ?thesis using cast_int_of_int [OF assms(2,3)] by simp
qed

lemma glyph_value_unit:
  assumes "0 \<le> l" and "l \<le> 1"
  defines "v \<equiv> single ieee (single ieee (l * 9) + 1 / 2)"
  shows "1 / 2 \<le> v \<and> v \<le> 19 / 2 \<and> \<bar>v - (l * 9 + 1 / 2)\<bar> \<le> 1 / 2 ^ 19"
proof -
  define y where "y = single ieee (l * 9)"
  have y0: "0 \<le> y" unfolding y_def by (rule single_nonneg) (use assms in simp)
  have "single ieee (l * 9) \<le> single ieee 9" by (rule single_mono) (use assms in simp)
  then have y9: "y \<le> 9" by (simp add: y_def single_9)
  have "\<bar>l * 9\<bar> \<le> 2 powi 4" using assms by simp
  then have "\<bar>single ieee (l * 9) - l * 9\<bar> \<le> 2 powi (4 - 24)" by (rule single_abs_error) simp
  then have e1: "\<bar>y - l * 9\<bar> \<le> 1 / 2 ^ 20" by (simp add: y_def)
  have "\<bar>y + 1 / 2\<bar> \<le> 2 powi 4" using y0 y9 by simp
  then have "\<bar>single ieee (y + 1 / 2) - (y + 1 / 2)\<bar> \<le> 2 powi (4 - 24)"
    by (rule single_abs_error) simp
  then have e2: "\<bar>v - (y + 1 / 2)\<bar> \<le> 1 / 2 ^ 20" by (simp add: v_def y_def)
  have "single ieee (1 / 2) \<le> single ieee (y + 1 / 2)" by (rule single_mono) (use y0 in simp)
  then have lo: "1 / 2 \<le> v" by (simp only: v_def y_def single_half)
  have "single ieee (y + 1 / 2) \<le> single ieee (19 / 2)" by (rule single_mono) (use y9 in simp)
  then have hi: "v \<le> 19 / 2" by (simp only: v_def y_def single_19_half)
  have "\<bar>v - (l * 9 + 1 / 2)\<bar> \<le> 1 / 2 ^ 20 + 1 / 2 ^ 20" using e1 e2 by linarith
  then have "\<bar>v - (l * 9 + 1 / 2)\<bar> \<le> 1 / 2 ^ 19" by simp
  with lo hi show ?thesis by simp
qed

lemma glyph_unit:
  assumes "length ramp = 10" and "0 \<le> l" and "l \<le> 1"
  shows "\<exists>idx. luminance_to_char ieee l ramp = Some (ramp ! nat idx) \<and> 0 \<le> idx \<and> idx \<le> 9 \<and>
           \<lfloor>l * 9 + 1 / 2 - 1 / 2 ^ 19\<rfloor> \<le> idx \<and> idx \<le> \<lfloor>l * 9 + 1 / 2 + 1 / 2 ^ 19\<rfloor>"
proof -
  define v where "v = single ieee (single ieee (l * 9) + 1 / 2)"
  from glyph_value_unit [OF assms(2,3)]
  have v: "1 / 2 \<le> v" "v \<le> 19 / 2" "\<bar>v - (l * 9 + 1 / 2)\<bar> \<le> 1 / 2 ^ 19"
    by (simp_all add: v_def)
  have f0: "0 \<le> \<lfloor>v\<rfloor>" using v(1) by (simp add: le_floor_iff)
  have f9: "\<lfloor>v\<rfloor> \<le> 9" using v(2) by (simp add: floor_le_iff)
  have cl: "clampi \<lfloor>v\<rfloor> 0 9 = \<lfloor>v\<rfloor>" using f0 f9 by (simp add: clampi_def)
  have "luminance_to_char ieee l ramp = Some (ramp ! nat (clampi \<lfloor>v\<rfloor> 0 9))"
    unfolding luminance_to_char_ieee [OF assms(1)] v_def [symmetric]
    by (rule glyph_index [OF assms(1)]) (use f0 f9 in \<open>simp_all add: INT_MIN_def INT_MAX_def\<close>)
  then have a: "luminance_to_char ieee l ramp = Some (ramp ! nat \<lfloor>v\<rfloor>)" by (simp only: cl)
  have b: "l * 9 + 1 / 2 - 1 / 2 ^ 19 \<le> v" "v \<le> l * 9 + 1 / 2 + 1 / 2 ^ 19"
    using v(3) by linarith+
  have "\<lfloor>l * 9 + 1 / 2 - 1 / 2 ^ 19\<rfloor> \<le> \<lfloor>v\<rfloor>" using b(1) by (rule floor_mono)
  moreover have "\<lfloor>v\<rfloor> \<le> \<lfloor>l * 9 + 1 / 2 + 1 / 2 ^ 19\<rfloor>" using b(2) by (rule floor_mono)
  ultimately show ?thesis using a f0 f9 by blast
qed

lemma clampi_low: "k \<le> 0 \<Longrightarrow> clampi k 0 9 = 0"
  by (simp add: clampi_def)

lemma clampi_high: "9 \<le> k \<Longrightarrow> clampi k 0 9 = 9"
  by (simp add: clampi_def)

lemma glyph_below:
  assumes "length ramp = 10" and "- (2 ^ 27) \<le> l" and "l \<le> 0"
  shows "luminance_to_char ieee l ramp = Some (ramp ! 0)"
proof -
  define y where "y = single ieee (l * 9)"
  define v where "v = single ieee (y + 1 / 2)"
  define f :: real where "f = of_int (- 9) * 2 powi 27"
  have rf: "representable 24 (- 126) f" unfolding f_def by (rule f32_scaled) simp_all
  have fv: "f = - 1207959552" by (simp add: f_def)
  have "single ieee (l * 9) \<le> single ieee 0" by (rule single_mono) (use assms in simp)
  then have y0: "y \<le> 0" by (simp add: y_def single_0)
  have yl: "f \<le> y" unfolding y_def by (rule single_ge [OF rf]) (use assms in \<open>simp add: fv\<close>)
  have "single ieee (y + 1 / 2) \<le> single ieee (1 / 2)" by (rule single_mono) (use y0 in simp)
  then have v0: "v \<le> 1 / 2" by (simp only: v_def single_half)
  have vl: "f \<le> v" unfolding v_def by (rule single_ge [OF rf]) (use yl in simp)
  have f0: "\<lfloor>v\<rfloor> \<le> 0" using v0 by (simp add: floor_le_iff)
  have "of_int (- 1207959552) \<le> v" using vl by (simp add: fv)
  then have fl: "- 1207959552 \<le> \<lfloor>v\<rfloor>" by (simp only: le_floor_iff)
  have cl: "clampi \<lfloor>v\<rfloor> 0 9 = 0" using f0 by (rule clampi_low)
  have "luminance_to_char ieee l ramp = Some (ramp ! nat (clampi \<lfloor>v\<rfloor> 0 9))"
    unfolding luminance_to_char_ieee [OF assms(1)] v_def y_def
    by (rule glyph_index [OF assms(1)])
       (use f0 fl in \<open>simp_all add: INT_MIN_def INT_MAX_def v_def y_def\<close>)
  then show ?thesis by (simp add: cl)
qed

lemma glyph_above:
  assumes "length ramp = 10" and "1 \<le> l" and "l \<le> 2 ^ 27"
  shows "luminance_to_char ieee l ramp = Some (ramp ! 9)"
proof -
  define y where "y = single ieee (l * 9)"
  define v where "v = single ieee (y + 1 / 2)"
  define f :: real where "f = of_int 9 * 2 powi 27"
  define g :: real where "g = of_int 10 * 2 powi 27"
  have rf: "representable 24 (- 126) f" unfolding f_def by (rule f32_scaled) simp_all
  have rg: "representable 24 (- 126) g" unfolding g_def by (rule f32_scaled) simp_all
  have fv: "f = 1207959552" by (simp add: f_def)
  have gv: "g = 1342177280" by (simp add: g_def)
  have "single ieee 9 \<le> single ieee (l * 9)" by (rule single_mono) (use assms in simp)
  then have y9: "9 \<le> y" by (simp add: y_def single_9)
  have yu: "y \<le> f" unfolding y_def by (rule single_le [OF rf]) (use assms in \<open>simp add: fv\<close>)
  have "single ieee (19 / 2) \<le> single ieee (y + 1 / 2)" by (rule single_mono) (use y9 in simp)
  then have v9: "19 / 2 \<le> v" by (simp only: v_def single_19_half)
  have vu: "v \<le> g" unfolding v_def by (rule single_le [OF rg]) (use yu in \<open>simp add: fv gv\<close>)
  have f9: "9 \<le> \<lfloor>v\<rfloor>" using v9 by (simp add: le_floor_iff)
  have "v \<le> of_int 1342177280" using vu by (simp add: gv)
  then have "v < of_int 1342177280 + 1" by linarith
  then have fu: "\<lfloor>v\<rfloor> \<le> 1342177280" by (simp only: floor_le_iff)
  have cl: "clampi \<lfloor>v\<rfloor> 0 9 = 9" using f9 by (rule clampi_high)
  have "luminance_to_char ieee l ramp = Some (ramp ! nat (clampi \<lfloor>v\<rfloor> 0 9))"
    unfolding luminance_to_char_ieee [OF assms(1)] v_def y_def
    by (rule glyph_index [OF assms(1)])
       (use f9 fu in \<open>simp_all add: INT_MIN_def INT_MAX_def v_def y_def\<close>)
  then show ?thesis by (simp add: cl)
qed

lemma glyph_exact:
  assumes "length ramp = 10" and "\<bar>l\<bar> \<le> 2 ^ 27"
  shows "luminance_to_char exact l ramp = Some (ramp ! nat (clampi \<lfloor>l * 9 + 1 / 2\<rfloor> 0 9))"
proof -
  have "- 1207959552 \<le> l * 9 + 1 / 2" "l * 9 + 1 / 2 < 1207959553" using assms(2) by simp_all
  then have "of_int (- 1207959552) \<le> l * 9 + 1 / 2" "l * 9 + 1 / 2 < of_int 1207959552 + 1"
    by simp_all
  then have "- 1207959552 \<le> \<lfloor>l * 9 + 1 / 2\<rfloor>" "\<lfloor>l * 9 + 1 / 2\<rfloor> \<le> 1207959552"
    by (simp_all only: le_floor_iff floor_le_iff)
  then show ?thesis
    unfolding luminance_to_char_exact [OF assms(1)]
    by (intro glyph_index [OF assms(1)]) (simp_all add: INT_MIN_def INT_MAX_def)
qed

text \<open>
  Claim C4, as amended, for both built-in ramps (ten glyphs, last index 9). In exact
  arithmetic, for every luminance of magnitude up to \<open>2 ^ 27\<close>, the glyph is the one at
  index round-half-up of \<open>lum * 9\<close>, clamped into \<open>[0, 9]\<close>. In IEEE single precision:
  for a luminance in \<open>[0, 1]\<close> the index lies in \<open>[0, 9]\<close> and is the round-half-up of the
  scaled luminance up to an error of \<open>2 ^ -19\<close> in the argument; a luminance below 0
  (down to \<open>- 2 ^ 27\<close>) gives the glyph of luminance 0, the first of the ramp; a luminance
  above 1 (up to \<open>2 ^ 27\<close>) gives the glyph of luminance 1, the last of the ramp.
\<close>

theorem glyph_mapper:
  assumes "ramp = RAMP_DEFAULT \<or> ramp = RAMP_INVERT"
  shows "(\<forall>lum. \<bar>lum\<bar> \<le> 2 ^ 27 \<longrightarrow>
            luminance_to_char exact lum ramp
              = Some (ramp ! nat (clampi \<lfloor>lum * 9 + 1 / 2\<rfloor> 0 9))) \<and>
         (\<forall>lum. 0 \<le> lum \<and> lum \<le> 1 \<longrightarrow>
            (\<exists>idx. luminance_to_char ieee lum ramp = Some (ramp ! nat idx) \<and>
               0 \<le> idx \<and> idx \<le> 9 \<and>
               \<lfloor>lum * 9 + 1 / 2 - 1 / 2 ^ 19\<rfloor> \<le> idx \<and>
               idx \<le> \<lfloor>lum * 9 + 1 / 2 + 1 / 2 ^ 19\<rfloor>)) \<and>
         (\<forall>lum. - (2 ^ 27) \<le> lum \<and> lum < 0 \<longrightarrow>
            luminance_to_char ieee lum ramp = luminance_to_char ieee 0 ramp) \<and>
         (\<forall>lum. 1 < lum \<and> lum \<le> 2 ^ 27 \<longrightarrow>
            luminance_to_char ieee lum ramp = luminance_to_char ieee 1 ramp) \<and>
         luminance_to_char ieee 0 ramp = Some (ramp ! 0) \<and>
         luminance_to_char ieee 1 ramp = Some (ramp ! 9)"
proof -
  note len = ramp_lengths [OF assms]
  have z: "luminance_to_char ieee 0 ramp = Some (ramp ! 0)"
    by (rule glyph_below [OF len]) simp_all
  have o: "luminance_to_char ieee 1 ramp = Some (ramp ! 9)"
    by (rule glyph_above [OF len]) simp_all
  have a: "luminance_to_char exact lum ramp = Some (ramp ! nat (clampi \<lfloor>lum * 9 + 1 / 2\<rfloor> 0 9))"
    if "\<bar>lum\<bar> \<le> 2 ^ 27" for lum using len that by (rule glyph_exact)
  have b: "\<exists>idx. luminance_to_char ieee lum ramp = Some (ramp ! nat idx) \<and>
               0 \<le> idx \<and> idx \<le> 9 \<and>
               \<lfloor>lum * 9 + 1 / 2 - 1 / 2 ^ 19\<rfloor> \<le> idx \<and>
               idx \<le> \<lfloor>lum * 9 + 1 / 2 + 1 / 2 ^ 19\<rfloor>"
    if "0 \<le> lum \<and> lum \<le> 1" for lum using glyph_unit [OF len, of lum] that by blast
  have c: "luminance_to_char ieee lum ramp = luminance_to_char ieee 0 ramp"
    if "- (2 ^ 27) \<le> lum \<and> lum < 0" for lum
    using glyph_below [OF len, of lum] that z by simp
  have d: "luminance_to_char ieee lum ramp = luminance_to_char ieee 1 ramp"
    if "1 < lum \<and> lum \<le> 2 ^ 27" for lum
    using glyph_above [OF len, of lum] that o by simp
  from a b c d z o show ?thesis by blast
qed

theorem glyph_mapper_witness:
  "luminance_to_char exact (1 / 2) RAMP_DEFAULT
     = Some (RAMP_DEFAULT ! nat (clampi \<lfloor>(1 / 2 :: real) * 9 + 1 / 2\<rfloor> 0 9)) \<and>
   (\<exists>idx. luminance_to_char ieee (1 / 2) RAMP_DEFAULT = Some (RAMP_DEFAULT ! nat idx) \<and>
      0 \<le> idx \<and> idx \<le> 9 \<and>
      \<lfloor>(1 / 2 :: real) * 9 + 1 / 2 - 1 / 2 ^ 19\<rfloor> \<le> idx \<and>
      idx \<le> \<lfloor>(1 / 2 :: real) * 9 + 1 / 2 + 1 / 2 ^ 19\<rfloor>) \<and>
   luminance_to_char ieee (- 3) RAMP_DEFAULT = luminance_to_char ieee 0 RAMP_DEFAULT \<and>
   luminance_to_char ieee 7 RAMP_DEFAULT = luminance_to_char ieee 1 RAMP_DEFAULT \<and>
   luminance_to_char ieee 0 RAMP_DEFAULT = Some (RAMP_DEFAULT ! 0) \<and>
   luminance_to_char ieee 1 RAMP_DEFAULT = Some (RAMP_DEFAULT ! 9)"
proof -
  have r: "RAMP_DEFAULT = RAMP_DEFAULT \<or> RAMP_DEFAULT = RAMP_INVERT" by simp
  note t = glyph_mapper [OF r]
  note t1 = t [THEN conjunct1, rule_format]
  note t2 = t [THEN conjunct2, THEN conjunct1, rule_format]
  note t3 = t [THEN conjunct2, THEN conjunct2, THEN conjunct1, rule_format]
  note t4 = t [THEN conjunct2, THEN conjunct2, THEN conjunct2, THEN conjunct1, rule_format]
  note t5 = t [THEN conjunct2, THEN conjunct2, THEN conjunct2, THEN conjunct2]
  have "luminance_to_char exact (1 / 2) RAMP_DEFAULT
     = Some (RAMP_DEFAULT ! nat (clampi \<lfloor>(1 / 2 :: real) * 9 + 1 / 2\<rfloor> 0 9))"
    by (rule t1) simp
  moreover have "\<exists>idx. luminance_to_char ieee (1 / 2) RAMP_DEFAULT = Some (RAMP_DEFAULT ! nat idx) \<and>
      0 \<le> idx \<and> idx \<le> 9 \<and>
      \<lfloor>(1 / 2 :: real) * 9 + 1 / 2 - 1 / 2 ^ 19\<rfloor> \<le> idx \<and>
      idx \<le> \<lfloor>(1 / 2 :: real) * 9 + 1 / 2 + 1 / 2 ^ 19\<rfloor>"
    by (rule t2) simp
  moreover have "luminance_to_char ieee (- 3) RAMP_DEFAULT = luminance_to_char ieee 0 RAMP_DEFAULT"
    by (rule t3) simp
  moreover have "luminance_to_char ieee 7 RAMP_DEFAULT = luminance_to_char ieee 1 RAMP_DEFAULT"
    by (rule t4) simp
  ultimately show ?thesis using t5 by (intro conjI) simp_all
qed

text \<open>
  The claim as stated fails twice in single precision. For the luminance \<open>2 ^ 31\<close> the
  conversion to \<^verbatim>\<open>int\<close> on line 45 is undefined. For the float \<open>14913080 / 2 ^ 28\<close>,
  \<open>lum * 9\<close> is the float just below one half, adding \<open>0.5f\<close> rounds to \<open>1.0f\<close>, and the
  index is 1 where round-half-up of \<open>lum * 9\<close> is 0.
\<close>

theorem glyph_mapper_counterexample:
  "luminance_to_char ieee (2 ^ 31) RAMP_DEFAULT = None \<and>
   luminance_to_char ieee (14913080 / 2 ^ 28) RAMP_DEFAULT = Some (CHR ''%'') \<and>
   RAMP_DEFAULT ! nat (clampi \<lfloor>(14913080 / 2 ^ 28 :: real) * 9 + 1 / 2\<rfloor> 0 9) = CHR ''@''"
  by code_simp

section \<open>The output grid\<close>

lemma cell_luminance_defined:
  assumes "c = 1 \<or> c = 3 \<or> c = 4" and "w * h * c \<le> int (length img)"
    and "0 \<le> fst ys" and "snd ys \<le> h" and "0 \<le> fst xs" and "snd xs \<le> w"
    and "int (length img) \<le> INT_MAX"
  shows "\<exists>lum. cell_luminance fp img w c ys xs = Some lum"
proof -
  have "\<exists>px. pixel_rgb img w c sy sx = Some px"
    if "sy \<in> set [fst ys..snd ys - 1]" "sx \<in> set [fst xs..snd xs - 1]" for sy sx
  proof -
    have "0 \<le> sy" "sy < h" "0 \<le> sx" "sx < w" using that assms(3-6) by simp_all
    then show ?thesis using assms(1,2,7) by (rule pixel_rgb_in_buffer)
  qed
  then have "\<forall>sy \<in> set [fst ys..snd ys - 1]. \<forall>sx \<in> set [fst xs..snd xs - 1].
          \<exists>px. pixel_rgb img w c sy sx = Some px" by blast
  from scan_rect_defined [OF this, of fp "double fp 0" 0]
  show ?thesis by (auto simp: cell_luminance_def)
qed

lemma rectangle_size:
  assumes "0 \<le> fst ys" and "snd ys \<le> h" and "0 \<le> fst xs" and "snd xs \<le> w"
    and "0 \<le> h" and "0 \<le> w"
  shows "int (length [fst ys..snd ys - 1]) * int (length [fst xs..snd xs - 1]) \<le> h * w"
proof -
  have a: "int (length [fst ys..snd ys - 1]) \<le> h" using assms(1,2,5) by simp
  have b: "int (length [fst xs..snd xs - 1]) \<le> w" using assms(3,4,6) by simp
  show ?thesis using a b assms(5) by (intro mult_mono) simp_all
qed

lemma single_pow2_30: "representable 24 (- 126) (2 ^ 30)"
proof -
  have "representable 24 (- 126) (of_int 1 * 2 powi 30)" by (rule f32_scaled) simp_all
  then show ?thesis by simp
qed

lemma span_ieee_defined:
  assumes "0 \<le> i" and "i < out_n" and "1 \<le> n" and "n \<le> 2 ^ 30"
  shows "\<exists>s0 s1. span ieee i n out_n = Some (s0, s1)"
proof -
  define A where "A = single ieee (of_int out_n)"
  define N where "N = single ieee (of_int n)"
  have "single ieee 1 \<le> single ieee (of_int out_n)" by (rule single_mono) (use assms in simp)
  then have A1: "1 \<le> A" by (simp add: A_def single_1)
  have N0: "0 \<le> N" unfolding N_def by (rule single_nonneg) (use assms in simp)
  have "(of_int n :: real) \<le> of_int (2 ^ 30)" using assms(4) by (simp only: of_int_le_iff)
  then have "(of_int n :: real) \<le> 2 ^ 30" by simp
  then have N30: "N \<le> 2 ^ 30" unfolding N_def by (rule single_le [OF single_pow2_30])
  have rA: "representable 24 (- 126) (A * 2 powi 30)"
    unfolding A_def single_ieee by (intro representable_scale representable_round_to) simp_all
  have q: "0 \<le> single ieee (single ieee (single ieee (of_int j) * N) / A) \<and>
           single ieee (single ieee (single ieee (of_int j) * N) / A) \<le> 2 ^ 30"
    if j: "0 \<le> j" "j \<le> out_n" for j
  proof -
    define J where "J = single ieee (of_int j)"
    have J0: "0 \<le> J" unfolding J_def by (rule single_nonneg) (use j in simp)
    have JA: "J \<le> A" unfolding J_def A_def by (rule single_mono) (use j in simp)
    have "J * N \<le> A * 2 ^ 30" using J0 JA N0 N30 A1 by (intro mult_mono) simp_all
    then have "J * N \<le> A * 2 powi 30" by simp
    then have "single ieee (J * N) \<le> A * 2 powi 30" by (rule single_le [OF rA])
    then have P: "single ieee (J * N) \<le> A * 2 ^ 30" by simp
    have P0: "0 \<le> single ieee (J * N)" by (rule single_nonneg) (use J0 N0 in simp)
    have "single ieee (J * N) / A \<le> 2 ^ 30" using P A1 by (simp add: divide_le_eq mult.commute)
    then have "single ieee (single ieee (J * N) / A) \<le> 2 ^ 30"
      by (rule single_le [OF single_pow2_30])
    moreover have "0 \<le> single ieee (single ieee (J * N) / A)"
      by (rule single_nonneg) (use P0 A1 in simp)
    ultimately show ?thesis by (simp add: J_def)
  qed
  define s0f where "s0f = single ieee (single ieee (single ieee (of_int i) * N) / A)"
  define s1f where "s1f = single ieee (single ieee (single ieee (of_int (i + 1)) * N) / A)"
  have b0: "0 \<le> s0f" "s0f \<le> 2 ^ 30" using q [of i] assms by (simp_all add: s0f_def)
  have b1: "0 \<le> s1f" "s1f \<le> 2 ^ 30" using q [of "i + 1"] assms by (simp_all add: s1f_def)
  have "0 \<le> \<lfloor>s0f\<rfloor>" using b0(1) by simp
  moreover have "s0f \<le> of_int (2 ^ 30)" using b0(2) by simp
  then have "s0f < of_int (2 ^ 30) + 1" by linarith
  then have "\<lfloor>s0f\<rfloor> \<le> 2 ^ 30" by (simp only: floor_le_iff)
  ultimately have c0: "cast_int (floorf s0f) = Some \<lfloor>s0f\<rfloor>"
    unfolding floorf_def by (intro cast_int_of_int) (simp_all add: INT_MIN_def INT_MAX_def)
  have "of_int 0 - 1 < s1f" using b1(1) by simp
  then have "0 \<le> \<lceil>s1f\<rceil>" by (simp only: le_ceiling_iff)
  moreover have "s1f \<le> of_int (2 ^ 30)" using b1(2) by simp
  then have "\<lceil>s1f\<rceil> \<le> 2 ^ 30" by (simp only: ceiling_le_iff)
  ultimately have c1: "cast_int (ceilf s1f) = Some \<lceil>s1f\<rceil>"
    unfolding ceilf_def by (intro cast_int_of_int) (simp_all add: INT_MIN_def INT_MAX_def)
  have "A \<noteq> 0" using A1 by simp
  then have "span ieee i n out_n = Some (clampi \<lfloor>s0f\<rfloor> 0 n, clampi \<lceil>s1f\<rceil> 0 n)"
    unfolding span_def fdiv_def A_def [symmetric] N_def [symmetric]
      s0f_def [symmetric] s1f_def [symmetric]
    by (simp add: c0 c1 del: of_int_add)
  then show ?thesis by blast
qed

lemma cell_glyph_defined:
  assumes "1 \<le> img_w im" and "img_w im \<le> 2 ^ 30" and "0 \<le> h"
    and "img_channels im = 1 \<or> img_channels im = 3 \<or> img_channels im = 4"
    and "img_w im * h * img_channels im \<le> int (length (img_data im))"
    and "h * img_w im \<le> 2 ^ 53"
    and "0 \<le> fst ys" and "snd ys \<le> h" and "0 \<le> ox" and "ox < out_w"
    and "length ramp = 10" and "int (length (img_data im)) \<le> INT_MAX"
  shows "\<exists>ch. cell_glyph ieee im out_w ramp ys ox = Some ch \<and> ch \<in> set ramp"
proof -
  from span_ieee_defined [OF assms(9,10,1,2)]
  obtain s0 s1 where xs: "span ieee ox (img_w im) out_w = Some (s0, s1)" by blast
  from span_range [OF xs] assms(1) have r: "0 \<le> s0" "s1 \<le> img_w im" by simp_all
  from cell_luminance_defined [OF assms(4,5,7,8) _ _ assms(12), of "(s0, s1)" ieee] r
  obtain lum where lum: "cell_luminance ieee (img_data im) (img_w im) (img_channels im) ys (s0, s1)
      = Some lum" by auto
  have "int (length [fst ys..snd ys - 1]) * int (length [fst (s0, s1)..snd (s0, s1) - 1])
      \<le> h * img_w im"
    by (rule rectangle_size) (use assms(1,3,7,8) r in simp_all)
  with assms(6)
  have "int (length [fst ys..snd ys - 1]) * int (length [fst (s0, s1)..snd (s0, s1) - 1]) \<le> 2 ^ 53"
    by linarith
  from cell_luminance_range [OF lum this] have l: "0 \<le> lum" "lum \<le> 1" by simp_all
  from glyph_unit [OF assms(11) l]
  obtain idx where idx: "luminance_to_char ieee lum ramp = Some (ramp ! nat idx)"
    "0 \<le> idx" "idx \<le> 9" by blast
  have "nat idx < length ramp" using idx(2,3) assms(11) by simp
  then have "ramp ! nat idx \<in> set ramp" by (rule nth_mem)
  moreover have "cell_glyph ieee im out_w ramp ys ox = Some (ramp ! nat idx)"
    by (simp add: cell_glyph_def xs lum idx(1))
  ultimately show ?thesis by simp
qed

lemma render_cells_defined:
  assumes "\<forall>ox \<in> set oxs. \<exists>ch. cell_glyph fp im out_w ramp ys ox = Some ch \<and> ch \<in> set ramp"
  shows "\<exists>cells. render_cells fp im out_w ramp ys oxs = Some cells \<and>
           length cells = length oxs \<and> set cells \<subseteq> set ramp \<and>
           (\<forall>k < length oxs. cell_glyph fp im out_w ramp ys (oxs ! k) = Some (cells ! k))"
  using assms
proof (induction oxs)
  case Nil
  then show ?case by simp
next
  case (Cons ox oxs)
  then obtain ch where ch: "cell_glyph fp im out_w ramp ys ox = Some ch" "ch \<in> set ramp" by auto
  from Cons obtain cells where c: "render_cells fp im out_w ramp ys oxs = Some cells"
    "length cells = length oxs" "set cells \<subseteq> set ramp"
    "\<forall>k < length oxs. cell_glyph fp im out_w ramp ys (oxs ! k) = Some (cells ! k)" by auto
  have "\<forall>k < length (ox # oxs). cell_glyph fp im out_w ramp ys ((ox # oxs) ! k) = Some ((ch # cells) ! k)"
    using ch(1) c(4) by (auto simp: nth_Cons split: nat.splits)
  then show ?case using ch c(1,2,3) by auto
qed

lemma render_rows_defined:
  assumes "\<forall>oy \<in> set oys. \<exists>cells. render_row fp im out_w out_h ramp oy = Some (cells @ [newline])"
  shows "\<exists>rows. render_rows fp im out_w out_h ramp oys = Some (lines_of rows) \<and>
           length rows = length oys \<and>
           (\<forall>k < length oys. render_row fp im out_w out_h ramp (oys ! k) = Some (rows ! k @ [newline]))"
  using assms
proof (induction oys)
  case Nil
  have "render_rows fp im out_w out_h ramp [] = Some (lines_of [])" by (simp add: lines_of_def)
  then show ?case by auto
next
  case (Cons oy oys)
  then obtain cells where r: "render_row fp im out_w out_h ramp oy = Some (cells @ [newline])"
    by auto
  from Cons obtain rows where c: "render_rows fp im out_w out_h ramp oys = Some (lines_of rows)"
    "length rows = length oys"
    "\<forall>k < length oys. render_row fp im out_w out_h ramp (oys ! k) = Some (rows ! k @ [newline])"
    by auto
  have a: "render_rows fp im out_w out_h ramp (oy # oys) = Some (lines_of (cells # rows))"
    by (simp add: r c(1) lines_of_def)
  have b: "\<forall>k < length (oy # oys).
      render_row fp im out_w out_h ramp ((oy # oys) ! k) = Some ((cells # rows) ! k @ [newline])"
    using r c(3) by (auto simp: nth_Cons split: nat.splits)
  have "length (cells # rows) = length (oy # oys)" using c(2) by simp
  with a b show ?case by blast
qed

lemma render_row_defined:
  assumes "1 \<le> img_w im" and "img_w im \<le> 2 ^ 30" and "1 \<le> img_h im" and "img_h im \<le> 2 ^ 30"
    and "img_channels im = 1 \<or> img_channels im = 3 \<or> img_channels im = 4"
    and "img_w im * img_h im * img_channels im \<le> int (length (img_data im))"
    and "img_h im * img_w im \<le> 2 ^ 53"
    and "0 \<le> oy" and "oy < out_h" and "length ramp = 10"
    and "int (length (img_data im)) \<le> INT_MAX"
  shows "\<exists>ys cells. span ieee oy (img_h im) out_h = Some ys \<and>
           render_row ieee im out_w out_h ramp oy = Some (cells @ [newline]) \<and>
           length cells = nat out_w \<and> set cells \<subseteq> set ramp \<and>
           (\<forall>ox. 0 \<le> ox \<and> ox < out_w \<longrightarrow>
              cell_glyph ieee im out_w ramp ys ox = Some (cells ! nat ox))"
proof -
  from span_ieee_defined [OF assms(8,9,3,4)]
  obtain sy0 sy1 where ys: "span ieee oy (img_h im) out_h = Some (sy0, sy1)" by blast
  from span_range [OF ys] assms(3) have r: "0 \<le> sy0" "sy1 \<le> img_h im" by simp_all
  have h0: "0 \<le> img_h im" using assms(3) by simp
  have "\<exists>ch. cell_glyph ieee im out_w ramp (sy0, sy1) ox = Some ch \<and> ch \<in> set ramp"
    if "ox \<in> set [0..out_w - 1]" for ox
    by (rule cell_glyph_defined [OF assms(1,2) h0 assms(5,6,7) _ _ _ _ assms(10,11)])
       (use that r in simp_all)
  then have "\<forall>ox \<in> set [0..out_w - 1].
      \<exists>ch. cell_glyph ieee im out_w ramp (sy0, sy1) ox = Some ch \<and> ch \<in> set ramp" by blast
  from render_cells_defined [OF this]
  obtain cells where c: "render_cells ieee im out_w ramp (sy0, sy1) [0..out_w - 1] = Some cells"
    "length cells = length [0..out_w - 1]" "set cells \<subseteq> set ramp"
    "\<forall>k < length [0..out_w - 1].
       cell_glyph ieee im out_w ramp (sy0, sy1) ([0..out_w - 1] ! k) = Some (cells ! k)"
    by blast
  have len: "length cells = nat out_w" using c(2) by simp
  have g: "cell_glyph ieee im out_w ramp (sy0, sy1) ox = Some (cells ! nat ox)"
    if "0 \<le> ox \<and> ox < out_w" for ox
  proof -
    have k: "nat ox < length [0..out_w - 1]" using that by simp
    have "[0..out_w - 1] ! nat ox = 0 + int (nat ox)" by (rule nth_upto) (use that in simp)
    then have "[0..out_w - 1] ! nat ox = ox" using that by simp
    with c(4) k show ?thesis by metis
  qed
  have "render_row ieee im out_w out_h ramp oy = Some (cells @ [newline])"
    by (simp add: render_row_def ys c(1))
  with ys len c(3) g show ?thesis by blast
qed

lemma out_height_value:
  assumes "1 \<le> w" and "1 \<le> h" and "1 \<le> tw" and "out_height ieee w h tw = Some out_h"
  shows "out_h = max 1 \<lfloor>single ieee (single ieee (single ieee (of_int h) *
                    single ieee (single ieee (of_int tw) / single ieee (of_int w))) *
                    single ieee (55 / 100)) + 1 / 2\<rfloor>"
proof -
  define W where "W = single ieee (of_int w)"
  define ratio where "ratio = single ieee (single ieee (of_int tw) / W)"
  define v where "v = single ieee (single ieee (single ieee (of_int h) * ratio) * single ieee (55 / 100))"
  have "single ieee 1 \<le> single ieee (of_int w)" by (rule single_mono) (use assms in simp)
  then have W1: "1 \<le> W" by (simp add: W_def single_1)
  have T0: "0 \<le> single ieee (of_int tw)" by (rule single_nonneg) (use assms in simp)
  have H0: "0 \<le> single ieee (of_int h)" by (rule single_nonneg) (use assms in simp)
  have C0: "0 \<le> single ieee (55 / 100)" by (rule single_nonneg) simp
  have r0: "0 \<le> ratio" unfolding ratio_def by (rule single_nonneg) (use T0 W1 in simp)
  have "0 \<le> single ieee (single ieee (of_int h) * ratio)"
    by (rule single_nonneg) (use H0 r0 in simp)
  then have "0 \<le> single ieee (single ieee (of_int h) * ratio) * single ieee (55 / 100)"
    using C0 by (rule mult_nonneg_nonneg)
  then have v0: "0 \<le> v" unfolding v_def by (rule single_nonneg)
  have "W \<noteq> 0" using W1 by simp
  then have "out_height ieee w h tw =
      cast_int (roundf v) \<bind> (\<lambda>out_h. Some (if out_h < 1 then 1 else out_h))"
    unfolding out_height_def fdiv_def Let_def W_def [symmetric]
    by (simp add: v_def ratio_def)
  with assms(4) obtain k where k: "cast_int (roundf v) = Some k"
    "out_h = (if k < 1 then 1 else k)" by (auto split: bind_splits)
  have "roundf v = of_int \<lfloor>v + 1 / 2\<rfloor>" using v0 by (simp add: roundf_def)
  with k(1) have "k = \<lfloor>v + 1 / 2\<rfloor>" by (simp add: cast_int_integral)
  then show ?thesis unfolding k(2) v_def ratio_def W_def by (simp add: max_def)
qed

lemma normalized_image:
  assumes "well_formed im"
  shows "img_w (normalized im) = img_w im" "img_h (normalized im) = img_h im"
    "img_data (normalized im) = img_data im"
    "img_channels (normalized im) = 1 \<or> img_channels (normalized im) = 3 \<or>
     img_channels (normalized im) = 4"
    "img_w im * img_h im * img_channels (normalized im) \<le> int (length (img_data im))"
    "img_h im * img_w im \<le> 2 ^ 53"
    "int (length (img_data im)) \<le> INT_MAX"
proof -
  from assms have wf: "1 \<le> img_w im" "1 \<le> img_h im"
    "img_channels im = 1 \<or> img_channels im = 2 \<or> img_channels im = 3 \<or> img_channels im = 4"
    "int (length (img_data im)) = img_w im * img_h im * img_channels im"
    "int (length (img_data im)) \<le> INT_MAX"
    by (auto simp: well_formed_def)
  show "img_w (normalized im) = img_w im" "img_h (normalized im) = img_h im"
    "img_data (normalized im) = img_data im" by (simp_all add: normalized_def)
  show "img_channels (normalized im) = 1 \<or> img_channels (normalized im) = 3 \<or>
     img_channels (normalized im) = 4" using wf(3) by (auto simp: normalized_def)
  have p: "0 \<le> img_w im * img_h im" using wf(1,2) by simp
  have "img_channels (normalized im) \<le> img_channels im" "1 \<le> img_channels im"
    using wf(3) by (auto simp: normalized_def)
  then have m: "img_w im * img_h im * img_channels (normalized im)
      \<le> img_w im * img_h im * img_channels im" "img_w im * img_h im * 1 \<le> img_w im * img_h im * img_channels im"
    using p by (intro mult_left_mono; simp)+
  show "img_w im * img_h im * img_channels (normalized im) \<le> int (length (img_data im))"
    using m(1) wf(4) by simp
  have "img_w im * img_h im \<le> INT_MAX" using m(2) wf(4,5) by simp
  then show "img_h im * img_w im \<le> 2 ^ 53" by (simp add: INT_MAX_def mult.commute)
  show "int (length (img_data im)) \<le> INT_MAX" by (rule wf(5))
qed

lemma convert_normalized:
  "convert fp im tw invert =
     out_height fp (img_w im) (img_h im) tw \<bind>
       (\<lambda>out_h. render_rows fp (normalized im) tw out_h
                  (if invert then RAMP_INVERT else RAMP_DEFAULT) [0..out_h - 1])"
  by (simp add: convert_def normalized_def Let_def)

lemma newline_not_in_ramp:
  "newline \<notin> set (if invert then RAMP_INVERT else RAMP_DEFAULT)"
  by (simp add: newline_def RAMP_INVERT_def RAMP_DEFAULT_def)

lemma convert_defined:
  assumes "well_formed im" and "img_w im \<le> 2 ^ 30" and "img_h im \<le> 2 ^ 30"
    and "out_height ieee (img_w im) (img_h im) tw = Some out_h"
  shows "\<exists>rows. convert ieee im tw invert = Some (lines_of rows) \<and>
           length rows = nat out_h \<and>
           (\<forall>oy. 0 \<le> oy \<and> oy < out_h \<longrightarrow>
              length (rows ! nat oy) = nat tw \<and>
              set (rows ! nat oy) \<subseteq> set (if invert then RAMP_INVERT else RAMP_DEFAULT) \<and>
              (\<exists>ys. span ieee oy (img_h im) out_h = Some ys \<and>
                 (\<forall>ox. 0 \<le> ox \<and> ox < tw \<longrightarrow>
                    cell_glyph ieee (normalized im) tw
                      (if invert then RAMP_INVERT else RAMP_DEFAULT) ys ox
                      = Some (rows ! nat oy ! nat ox))))"
proof -
  define ramp where "ramp = (if invert then RAMP_INVERT else RAMP_DEFAULT)"
  define im' where "im' = normalized im"
  have len: "length ramp = 10" unfolding ramp_def by (rule ramp_lengths) simp
  from assms(1) have wf: "1 \<le> img_w im" "1 \<le> img_h im" by (simp_all add: well_formed_def)
  note n = normalized_image [OF assms(1), folded im'_def]
  have row: "\<exists>ys cells. span ieee oy (img_h im) out_h = Some ys \<and>
           render_row ieee im' tw out_h ramp oy = Some (cells @ [newline]) \<and>
           length cells = nat tw \<and> set cells \<subseteq> set ramp \<and>
           (\<forall>ox. 0 \<le> ox \<and> ox < tw \<longrightarrow>
              cell_glyph ieee im' tw ramp ys ox = Some (cells ! nat ox))"
    if "0 \<le> oy" "oy < out_h" for oy
    using render_row_defined [of im' oy out_h ramp tw] that wf assms(2,3) n len by simp
  have "\<exists>cells. render_row ieee im' tw out_h ramp oy = Some (cells @ [newline])"
    if "oy \<in> set [0..out_h - 1]" for oy
  proof -
    have "0 \<le> oy" "oy < out_h" using that by simp_all
    from row [OF this] show ?thesis by blast
  qed
  then have "\<forall>oy \<in> set [0..out_h - 1].
      \<exists>cells. render_row ieee im' tw out_h ramp oy = Some (cells @ [newline])"
    by blast
  from render_rows_defined [OF this]
  obtain rows where r: "render_rows ieee im' tw out_h ramp [0..out_h - 1] = Some (lines_of rows)"
    "length rows = length [0..out_h - 1]"
    "\<forall>k < length [0..out_h - 1].
       render_row ieee im' tw out_h ramp ([0..out_h - 1] ! k) = Some (rows ! k @ [newline])"
    by blast
  have c: "convert ieee im tw invert = Some (lines_of rows)"
    by (simp add: convert_normalized assms(4) r(1) [unfolded im'_def ramp_def])
  have l: "length rows = nat out_h" using r(2) by simp
  have p: "length (rows ! nat oy) = nat tw \<and> set (rows ! nat oy) \<subseteq> set ramp \<and>
              (\<exists>ys. span ieee oy (img_h im) out_h = Some ys \<and>
                 (\<forall>ox. 0 \<le> ox \<and> ox < tw \<longrightarrow>
                    cell_glyph ieee im' tw ramp ys ox = Some (rows ! nat oy ! nat ox)))"
    if oy: "0 \<le> oy \<and> oy < out_h" for oy
  proof -
    from row [of oy] oy obtain ys cells where rc: "span ieee oy (img_h im) out_h = Some ys"
      "render_row ieee im' tw out_h ramp oy = Some (cells @ [newline])"
      "length cells = nat tw" "set cells \<subseteq> set ramp"
      "\<forall>ox. 0 \<le> ox \<and> ox < tw \<longrightarrow> cell_glyph ieee im' tw ramp ys ox = Some (cells ! nat ox)"
      by blast
    have k: "nat oy < length [0..out_h - 1]" using oy by simp
    have "[0..out_h - 1] ! nat oy = 0 + int (nat oy)" by (rule nth_upto) (use oy in simp)
    then have "[0..out_h - 1] ! nat oy = oy" using oy by simp
    with r(3) k have "render_row ieee im' tw out_h ramp oy = Some (rows ! nat oy @ [newline])"
      by metis
    with rc(2) have "cells = rows ! nat oy" by simp
    with rc show ?thesis by blast
  qed
  from c l p show ?thesis unfolding ramp_def im'_def by blast
qed

text \<open>
  Claim C1, as amended. For a decoded image with width and height up to \<open>2 ^ 30\<close>, a
  target width of at least 1 and an output height that fits an \<^verbatim>\<open>int\<close> (the conversion of
  line 88 is defined), the program in IEEE arithmetic writes a grid of \<open>out_h\<close> rows to
  standard output, each of exactly \<open>tw\<close> glyphs and ended by a newline; row \<open>oy\<close>, column
  \<open>ox\<close> holds the glyph of cell \<open>(ox, oy)\<close>, rows top to bottom and columns left to right;
  and \<open>out_h\<close> is the larger of 1 and the rounding, halves upwards, of the single-precision
  value of \<open>h * (tw / w) * 0.55\<close>, which is not negative.
\<close>

theorem output_grid:
  assumes "well_formed im" and "img_w im \<le> 2 ^ 30" and "img_h im \<le> 2 ^ 30" and "1 \<le> tw"
    and "out_height ieee (img_w im) (img_h im) tw = Some out_h"
  shows "\<exists>rows.
           convert ieee im tw invert = Some (lines_of rows) \<and>
           int (length rows) = out_h \<and>
           out_h = max 1 \<lfloor>single ieee (single ieee (single ieee (of_int (img_h im)) *
                      single ieee (single ieee (of_int tw) / single ieee (of_int (img_w im)))) *
                      single ieee (55 / 100)) + 1 / 2\<rfloor> \<and>
           (\<forall>oy. 0 \<le> oy \<and> oy < out_h \<longrightarrow>
              int (length (rows ! nat oy)) = tw \<and> newline \<notin> set (rows ! nat oy) \<and>
              (\<exists>ys. span ieee oy (img_h im) out_h = Some ys \<and>
                 (\<forall>ox. 0 \<le> ox \<and> ox < tw \<longrightarrow>
                    cell_glyph ieee (normalized im) tw
                      (if invert then RAMP_INVERT else RAMP_DEFAULT) ys ox
                      = Some (rows ! nat oy ! nat ox)))) \<and>
           (\<forall>stbi_load argv.
              2 \<le> length argv \<and> stbi_load (argv ! 1) = Some im \<and>
              target_width_of argv = Some tw \<and> invert_of argv = invert \<longrightarrow>
              main ieee stbi_load argv
                = Some \<lparr>exit_code = 0, stdout = lines_of rows, stderr = []\<rparr>)"
proof -
  from assms(1) have wf: "1 \<le> img_w im" "1 \<le> img_h im" by (simp_all add: well_formed_def)
  note h = out_height_value [OF wf assms(4,5)]
  then have h1: "1 \<le> out_h" by simp
  from convert_defined [OF assms(1,2,3,5), of invert]
  obtain rows where r: "convert ieee im tw invert = Some (lines_of rows)"
    "length rows = nat out_h"
    "\<forall>oy. 0 \<le> oy \<and> oy < out_h \<longrightarrow>
              length (rows ! nat oy) = nat tw \<and>
              set (rows ! nat oy) \<subseteq> set (if invert then RAMP_INVERT else RAMP_DEFAULT) \<and>
              (\<exists>ys. span ieee oy (img_h im) out_h = Some ys \<and>
                 (\<forall>ox. 0 \<le> ox \<and> ox < tw \<longrightarrow>
                    cell_glyph ieee (normalized im) tw
                      (if invert then RAMP_INVERT else RAMP_DEFAULT) ys ox
                      = Some (rows ! nat oy ! nat ox)))"
    by blast
  have l: "int (length rows) = out_h" using r(2) h1 by simp
  have p: "int (length (rows ! nat oy)) = tw \<and> newline \<notin> set (rows ! nat oy) \<and>
              (\<exists>ys. span ieee oy (img_h im) out_h = Some ys \<and>
                 (\<forall>ox. 0 \<le> ox \<and> ox < tw \<longrightarrow>
                    cell_glyph ieee (normalized im) tw
                      (if invert then RAMP_INVERT else RAMP_DEFAULT) ys ox
                      = Some (rows ! nat oy ! nat ox)))"
    if "0 \<le> oy \<and> oy < out_h" for oy
  proof -
    from r(3) that have a: "length (rows ! nat oy) = nat tw"
      "set (rows ! nat oy) \<subseteq> set (if invert then RAMP_INVERT else RAMP_DEFAULT)"
      "\<exists>ys. span ieee oy (img_h im) out_h = Some ys \<and>
                 (\<forall>ox. 0 \<le> ox \<and> ox < tw \<longrightarrow>
                    cell_glyph ieee (normalized im) tw
                      (if invert then RAMP_INVERT else RAMP_DEFAULT) ys ox
                      = Some (rows ! nat oy ! nat ox))"
      by blast+
    have "int (length (rows ! nat oy)) = tw" using a(1) assms(4) by simp
    moreover have "newline \<notin> set (rows ! nat oy)"
      using a(2) newline_not_in_ramp [of invert] by blast
    ultimately show ?thesis using a(3) by blast
  qed
  have m: "main ieee stbi_load argv = Some \<lparr>exit_code = 0, stdout = lines_of rows, stderr = []\<rparr>"
    if "2 \<le> length argv \<and> stbi_load (argv ! 1) = Some im \<and>
        target_width_of argv = Some tw \<and> invert_of argv = invert" for stbi_load argv
    using main_loaded [of argv stbi_load im ieee] that r(1) by simp
  from r(1) l h p m show ?thesis by blast
qed

lemma demo_well_formed: "well_formed demo_image"
  by (simp add: well_formed_def demo_image_def INT_MAX_def)

lemma demo_height: "out_height ieee 2 2 4 = Some 2"
  by code_simp

theorem output_grid_witness:
  "\<exists>rows. convert ieee demo_image 4 False = Some (lines_of rows) \<and> int (length rows) = 2"
proof -
  have a: "img_w demo_image \<le> 2 ^ 30" "img_h demo_image \<le> 2 ^ 30" "(1::int) \<le> 4"
    "out_height ieee (img_w demo_image) (img_h demo_image) 4 = Some 2"
    by (simp_all add: demo_image_def demo_height)
  from output_grid [OF demo_well_formed a, of False] show ?thesis by blast
qed

text \<open>
  A one pixel wide image of height \<open>2 ^ 24\<close> at target width 1000: the rounded height is
  about \<open>9.2 * 10 ^ 9\<close>, the conversion to \<^verbatim>\<open>int\<close> is undefined and no grid is promised.
\<close>

theorem output_grid_counterexample:
  "out_height ieee 1 16777216 1000 = None \<and>
   convert ieee \<lparr>img_w = 1, img_h = 16777216, img_channels = 1,
                  img_data = replicate 16777216 0\<rparr> 1000 False = None"
proof -
  have h: "out_height ieee 1 16777216 1000 = None" by code_simp
  then show ?thesis by (simp add: convert_normalized)
qed

subsection \<open>A run of each exit path\<close>

lemma atoi_ex4: "atoi ''4'' = Some 4" by code_simp

lemma demo_run:
  "\<exists>txt. main ieee demo_load [''ascii_art'', ''shot.png'', ''4'']
           = Some \<lparr>exit_code = 0, stdout = txt, stderr = []\<rparr>"
proof -
  have a: "img_w demo_image \<le> 2 ^ 30" "img_h demo_image \<le> 2 ^ 30"
    "out_height ieee (img_w demo_image) (img_h demo_image) 4 = Some 2"
    by (simp_all add: demo_image_def demo_height)
  from convert_defined [OF demo_well_formed a, of False]
  obtain rows where "convert ieee demo_image 4 False = Some (lines_of rows)" by blast
  then show ?thesis
    using main_loaded [of "[''ascii_art'', ''shot.png'', ''4'']" demo_load demo_image ieee]
    by (simp add: demo_load_def target_width_of_def atoi_ex4 invert_of_def)
qed

theorem exit_codes_witness:
  "main ieee demo_load [''ascii_art'']
     = Some \<lparr>exit_code = 1, stdout = [], stderr = usage ''ascii_art''\<rparr> \<and>
   main ieee demo_load [''ascii_art'', ''notes.txt'']
     = Some \<lparr>exit_code = 2, stdout = [], stderr = load_error ''notes.txt''\<rparr> \<and>
   names_file (load_error ''notes.txt'') ''notes.txt'' \<and>
   exit_code (the (main ieee demo_load [''ascii_art'', ''shot.png'', ''4''])) = 0 \<and>
   stderr (the (main ieee demo_load [''ascii_art'', ''shot.png'', ''4''])) = [] \<and>
   (\<exists>im tw. demo_load ''shot.png'' = Some im \<and>
      target_width_of [''ascii_art'', ''shot.png'', ''4''] = Some tw \<and>
      convert ieee im tw (invert_of [''ascii_art'', ''shot.png'', ''4''])
        = Some (stdout (the (main ieee demo_load [''ascii_art'', ''shot.png'', ''4'']))))"
proof -
  note t1 = exit_codes [of ieee demo_load "''ascii_art''" "[''ascii_art'', ''notes.txt'']"]
  note t2 = exit_codes [of ieee demo_load "''ascii_art''" "[''ascii_art'', ''shot.png'', ''4'']"]
  from demo_run obtain out where
    m: "main ieee demo_load [''ascii_art'', ''shot.png'', ''4'']
          = Some \<lparr>exit_code = 0, stdout = out, stderr = []\<rparr>" by blast
  have a: "main ieee demo_load [''ascii_art'']
     = Some \<lparr>exit_code = 1, stdout = [], stderr = usage ''ascii_art''\<rparr>"
    using t1 by simp
  have b: "main ieee demo_load [''ascii_art'', ''notes.txt'']
     = Some \<lparr>exit_code = 2, stdout = [], stderr = load_error ''notes.txt''\<rparr> \<and>
   names_file (load_error ''notes.txt'') ''notes.txt''"
    using t1 by (simp add: demo_load_def target_width_of_def)
  from t2 m have c: "exit_code \<lparr>exit_code = 0, stdout = out, stderr = []\<rparr> = 0 \<longrightarrow>
      stderr \<lparr>exit_code = 0, stdout = out, stderr = []\<rparr> = [] \<and>
         (\<exists>im tw. demo_load ([''ascii_art'', ''shot.png'', ''4''] ! 1) = Some im \<and>
            target_width_of [''ascii_art'', ''shot.png'', ''4''] = Some tw \<and>
            convert ieee im tw (invert_of [''ascii_art'', ''shot.png'', ''4''])
              = Some (stdout \<lparr>exit_code = 0, stdout = out, stderr = []\<rparr>))"
    by blast
  from a b c show ?thesis by (simp add: m)
qed

section \<open>The cell average\<close>

lemma luma_exact:
  "luma exact (r, g, b) =
     (2126 / 10000 * unsigned r + 7152 / 10000 * unsigned g + 722 / 10000 * unsigned b) / 255"
  by (simp add: luma_def exact_def)

lemma luma_exact_range: "0 \<le> luma exact px \<and> luma exact px \<le> 1"
proof -
  obtain r g b where px: "px = (r, g, b)" by (cases px) auto
  define R G B :: real where "R = unsigned r" and "G = unsigned g" and "B = unsigned b"
  have R: "0 \<le> R" "R \<le> 255" and G: "0 \<le> G" "G \<le> 255" and B: "0 \<le> B" "B \<le> 255"
    by (simp_all add: R_def G_def B_def byte_value)
  have "luma exact px = (2126 / 10000 * R + 7152 / 10000 * G + 722 / 10000 * B) / 255"
    by (simp only: px luma_exact R_def G_def B_def)
  then show ?thesis using R G B by simp
qed

lemma luma_ieee_error: "\<bar>luma ieee px - luma exact px\<bar> \<le> 1 / 2 ^ 22"
proof -
  obtain r g b where px: "px = (r, g, b)" by (cases px) auto
  define R G B :: real where "R = unsigned r" and "G = unsigned g" and "B = unsigned b"
  have R: "0 \<le> R" "R \<le> 255" and G: "0 \<le> G" "G \<le> 255" and B: "0 \<le> B" "B \<le> 255"
    by (simp_all add: R_def G_def B_def byte_value)
  define p1 p2 p3 where "p1 = single ieee (891709/4194304 * R)"
    and "p2 = single ieee (11999065/16777216 * G)" and "p3 = single ieee (1211315/16777216 * B)"
  define s1 where "s1 = single ieee (p1 + p2)"
  define s2 where "s2 = single ieee (s1 + p3)"
  have l: "luma ieee px = single ieee (s2 / 255)"
    unfolding px luma_def prod.case of_nat_unat luma_consts byte_value
      s2_def s1_def p1_def p2_def p3_def R_def G_def B_def ..
  have e: "luma exact px = (2126 / 10000 * R + 7152 / 10000 * G + 722 / 10000 * B) / 255"
    by (simp only: px luma_exact R_def G_def B_def)
  have "\<bar>891709/4194304 * R\<bar> < 2 powi 6" using R by simp
  then have "\<bar>single ieee (891709/4194304 * R) - 891709/4194304 * R\<bar> \<le> 2 powi (6 - 1 - 24)"
    by (rule single_half_ulp) simp
  then have a1: "\<bar>p1 - 891709/4194304 * R\<bar> \<le> 1 / 2 ^ 19" by (simp add: p1_def)
  have "\<bar>11999065/16777216 * G\<bar> < 2 powi 8" using G by simp
  then have "\<bar>single ieee (11999065/16777216 * G) - 11999065/16777216 * G\<bar>
      \<le> 2 powi (8 - 1 - 24)"
    by (rule single_half_ulp) simp
  then have a2: "\<bar>p2 - 11999065/16777216 * G\<bar> \<le> 1 / 2 ^ 17" by (simp add: p2_def)
  have "\<bar>1211315/16777216 * B\<bar> < 2 powi 5" using B by simp
  then have "\<bar>single ieee (1211315/16777216 * B) - 1211315/16777216 * B\<bar>
      \<le> 2 powi (5 - 1 - 24)"
    by (rule single_half_ulp) simp
  then have a3: "\<bar>p3 - 1211315/16777216 * B\<bar> \<le> 1 / 2 ^ 20" by (simp add: p3_def)
  have c1: "\<bar>891709/4194304 * R - 2126 / 10000 * R\<bar> \<le> 1 / 2 ^ 18" using R by simp
  have c2: "\<bar>11999065/16777216 * G - 7152 / 10000 * G\<bar> \<le> 1 / 2 ^ 18" using G by simp
  have c3: "\<bar>1211315/16777216 * B - 722 / 10000 * B\<bar> \<le> 1 / 2 ^ 18" using B by simp
  have "891709/4194304 * R \<le> 891709/4194304 * 255" using R by simp
  then have "single ieee (891709/4194304 * R) \<le> single ieee (891709/4194304 * 255)"
    by (rule single_mono)
  then have p1: "p1 \<le> 3552903/65536" unfolding p1_def luma_white_steps(1) .
  have p1': "0 \<le> p1" unfolding p1_def by (rule single_nonneg) (use R in simp)
  have "11999065/16777216 * G \<le> 11999065/16777216 * 255" using G by simp
  then have "single ieee (11999065/16777216 * G) \<le> single ieee (11999065/16777216 * 255)"
    by (rule single_mono)
  then have p2: "p2 \<le> 5976097/32768" unfolding p2_def luma_white_steps(2) .
  have p2': "0 \<le> p2" unfolding p2_def by (rule single_nonneg) (use G in simp)
  have "1211315/16777216 * B \<le> 1211315/16777216 * 255" using B by simp
  then have "single ieee (1211315/16777216 * B) \<le> single ieee (1211315/16777216 * 255)"
    by (rule single_mono)
  then have p3: "p3 \<le> 4826333/262144" unfolding p3_def luma_white_steps(3) .
  have p3': "0 \<le> p3" unfolding p3_def by (rule single_nonneg) (use B in simp)
  have "p1 + p2 \<le> 3552903/65536 + 5976097/32768" using p1 p2 by (rule add_mono)
  then have "single ieee (p1 + p2) \<le> single ieee (3552903/65536 + 5976097/32768)"
    by (rule single_mono)
  then have s1: "s1 \<le> 15505097/65536" unfolding s1_def luma_white_steps(4) .
  have s1': "0 \<le> s1" unfolding s1_def by (rule single_nonneg) (use p1' p2' in simp)
  have "s1 + p3 \<le> 15505097/65536 + 4826333/262144" using s1 p3 by (rule add_mono)
  then have "single ieee (s1 + p3) \<le> single ieee (15505097/65536 + 4826333/262144)"
    by (rule single_mono)
  then have s2: "s2 \<le> 255" unfolding s2_def luma_white_steps(5) .
  have s2': "0 \<le> s2" unfolding s2_def by (rule single_nonneg) (use s1' p3' in simp)
  have "\<bar>p1 + p2\<bar> < 2 powi 8" using p1 p1' p2 p2' by simp
  then have "\<bar>single ieee (p1 + p2) - (p1 + p2)\<bar> \<le> 2 powi (8 - 1 - 24)"
    by (rule single_half_ulp) simp
  then have b1: "\<bar>s1 - (p1 + p2)\<bar> \<le> 1 / 2 ^ 17" by (simp add: s1_def)
  have "\<bar>s1 + p3\<bar> < 2 powi 8" using s1 s1' p3 p3' by simp
  then have "\<bar>single ieee (s1 + p3) - (s1 + p3)\<bar> \<le> 2 powi (8 - 1 - 24)"
    by (rule single_half_ulp) simp
  then have b2: "\<bar>s2 - (s1 + p3)\<bar> \<le> 1 / 2 ^ 17" by (simp add: s2_def)
  define N where "N = 2126 / 10000 * R + 7152 / 10000 * G + 722 / 10000 * B"
  define u :: real where "u = 1 / 2 ^ 20"
  have a1': "\<bar>p1 - 891709/4194304 * R\<bar> \<le> 2 * u" using a1 by (simp add: u_def)
  have a2': "\<bar>p2 - 11999065/16777216 * G\<bar> \<le> 8 * u" using a2 by (simp add: u_def)
  have a3': "\<bar>p3 - 1211315/16777216 * B\<bar> \<le> u" using a3 by (simp add: u_def)
  have c1': "\<bar>891709/4194304 * R - 2126 / 10000 * R\<bar> \<le> 4 * u" using c1 by (simp add: u_def)
  have c2': "\<bar>11999065/16777216 * G - 7152 / 10000 * G\<bar> \<le> 4 * u" using c2 by (simp add: u_def)
  have c3': "\<bar>1211315/16777216 * B - 722 / 10000 * B\<bar> \<le> 4 * u" using c3 by (simp add: u_def)
  have b1': "\<bar>s1 - (p1 + p2)\<bar> \<le> 8 * u" using b1 by (simp add: u_def)
  have b2': "\<bar>s2 - (s1 + p3)\<bar> \<le> 8 * u" using b2 by (simp add: u_def)
  have q1: "\<bar>p1 - 2126 / 10000 * R\<bar> \<le> 6 * u" using a1' c1' by linarith
  have q2: "\<bar>p2 - 7152 / 10000 * G\<bar> \<le> 12 * u" using a2' c2' by linarith
  have q3: "\<bar>p3 - 722 / 10000 * B\<bar> \<le> 5 * u" using a3' c3' by linarith
  have q4: "\<bar>p1 + p2 - (2126 / 10000 * R + 7152 / 10000 * G)\<bar> \<le> 18 * u"
    using q1 q2 by linarith
  have q5: "\<bar>p1 + p2 + p3 - N\<bar> \<le> 23 * u"
    using q4 q3 unfolding N_def by linarith
  have q6: "\<bar>s2 - (p1 + p2 + p3)\<bar> \<le> 16 * u" using b1' b2' by linarith
  have "\<bar>s2 - N\<bar> \<le> 39 * u" using q5 q6 by linarith
  then have "\<bar>s2 - N\<bar> \<le> 39 / 2 ^ 20" by (simp add: u_def)
  then have n: "\<bar>s2 / 255 - N / 255\<bar> \<le> (39 / 2 ^ 20) / 255"
    by (simp add: diff_divide_distrib [symmetric] divide_right_mono)
  have "\<bar>s2 / 255\<bar> \<le> 2 powi 0" using s2 s2' by simp
  then have "\<bar>single ieee (s2 / 255) - s2 / 255\<bar> \<le> 2 powi (0 - 24)"
    by (rule single_abs_error) simp
  then have d: "\<bar>single ieee (s2 / 255) - s2 / 255\<bar> \<le> 1 / 2 ^ 24" by simp
  have "\<bar>single ieee (s2 / 255) - N / 255\<bar> \<le> (39 / 2 ^ 20) / 255 + 1 / 2 ^ 24"
    using n d by linarith
  also have "\<dots> \<le> 1 / 2 ^ 22" by simp
  finally show ?thesis unfolding l e N_def .
qed

lemma byte_at_Some: "byte_at img i = Some v \<Longrightarrow> v = img ! nat i"
  by (simp add: byte_at_def split: if_splits)

lemma luma_of_pixel:
  assumes "pixel_rgb img w c sy sx = Some px" and "c = 1 \<or> c = 3 \<or> c = 4"
  shows "luma exact px = pixel_luminance img w c sy sx"
proof -
  from assms(1) obtain idx where i: "pixel_index w c sy sx = Some idx"
    by (auto simp: pixel_rgb_def split: bind_splits)
  then obtain row pos where "int_result (sy * w) = Some row" "int_result (row + sx) = Some pos"
    "int_result (pos * (if c = 1 then 1 else c)) = Some idx"
    by (auto simp: pixel_index_def split: bind_splits)
  then have "idx = (sy * w + sx) * (if c = 1 then 1 else c)"
    by (auto dest!: int_result_value)
  then have idx: "idx = (sy * w + sx) * c" by (simp split: if_splits)
  show ?thesis
  proof (cases "c = 1")
    case True
    with assms(1) i obtain v where v: "byte_at img idx = Some v" "px = (v, v, v)"
      by (auto simp: pixel_rgb_def split: bind_splits)
    from byte_at_Some [OF v(1)] have "v = img ! nat ((sy * w + sx) * c)" by (simp only: idx)
    then show ?thesis using True
      by (simp add: v(2) luma_exact pixel_luminance_def channel_value_def)
  next
    case False
    with assms(1) i obtain i0 i1 i2 r g b where v:
      "int_result (idx + 0) = Some i0" "byte_at img i0 = Some r"
      "int_result (idx + 1) = Some i1" "byte_at img i1 = Some g"
      "int_result (idx + 2) = Some i2" "byte_at img i2 = Some b" "px = (r, g, b)"
      by (auto simp: pixel_rgb_def split: bind_splits)
    from v(1,3,5) have j: "i0 = (sy * w + sx) * c + 0" "i1 = (sy * w + sx) * c + 1"
      "i2 = (sy * w + sx) * c + 2"
      by (auto dest!: int_result_value simp: idx)
    from byte_at_Some [OF v(2)] byte_at_Some [OF v(4)] byte_at_Some [OF v(6)]
    have "r = img ! nat ((sy * w + sx) * c + 0)" "g = img ! nat ((sy * w + sx) * c + 1)"
      "b = img ! nat ((sy * w + sx) * c + 2)" by (simp_all only: j)
    moreover have "\<not> c < 3" using assms(2) False by auto
    ultimately show ?thesis
      by (simp add: v(7) luma_exact pixel_luminance_def channel_value_def)
  qed
qed

lemma scan_row_exact:
  assumes "scan_row exact img w c sy sxs (t, n) = Some (t', n')" and "c = 1 \<or> c = 3 \<or> c = 4"
  shows "t' = t + (\<Sum>sx\<leftarrow>sxs. pixel_luminance img w c sy sx)"
  using assms(1)
proof (induction sxs arbitrary: t n)
  case Nil
  then show ?case by simp
next
  case (Cons sx sxs)
  from Cons.prems obtain px where px: "pixel_rgb img w c sy sx = Some px"
    and rest: "scan_row exact img w c sy sxs (double exact (t + luma exact px), n + 1) = Some (t', n')"
    by (auto split: option.splits)
  have "double exact (t + luma exact px) = t + pixel_luminance img w c sy sx"
    by (simp add: exact_def luma_of_pixel [OF px assms(2), unfolded exact_def])
  with Cons.IH [OF rest] show ?case by simp
qed

lemma scan_rect_exact:
  assumes "scan_rect exact img w c sys sxs (t, n) = Some (t', n')" and "c = 1 \<or> c = 3 \<or> c = 4"
  shows "t' = t + (\<Sum>sy\<leftarrow>sys. \<Sum>sx\<leftarrow>sxs. pixel_luminance img w c sy sx)"
  using assms(1)
proof (induction sys arbitrary: t n)
  case Nil
  then show ?case by simp
next
  case (Cons sy sys)
  from Cons.prems obtain t1 n1 where row: "scan_row exact img w c sy sxs (t, n) = Some (t1, n1)"
    and rest: "scan_rect exact img w c sys sxs (t1, n1) = Some (t', n')"
    by (auto split: option.splits)
  from scan_row_exact [OF row assms(2)] Cons.IH [OF rest] show ?case by simp
qed

lemma sum_list_upto: "(\<Sum>i\<leftarrow>[a..b - 1]. f i) = (\<Sum>i = a..<b. f i)" for f :: "int \<Rightarrow> real"
proof -
  have "{a..b - 1} = {a..<b}" by auto
  then show ?thesis by (simp add: interv_sum_list_conv_sum_set_int)
qed

lemma double_abs_error:
  "\<bar>x\<bar> \<le> 2 powi E \<Longrightarrow> - 1022 \<le> E \<Longrightarrow> \<bar>double ieee x - x\<bar> \<le> 2 powi (E - 53)"
  using round_to_abs_error [of x E "- 1022" 53] by (simp add: double_ieee)

lemma double_half_ulp:
  "\<bar>x\<bar> < 2 powi E \<Longrightarrow> - 1022 < E \<Longrightarrow> \<bar>double ieee x - x\<bar> \<le> 2 powi (E - 1 - 53)"
  using round_to_half_ulp [of x E "- 1022" 53] by (simp add: double_ieee)

lemma scan_row_count:
  "scan_row fp img w c sy sxs (a, n) = Some (a', n') \<Longrightarrow> n' = n + int (length sxs)"
proof (induction sxs arbitrary: a n)
  case Nil
  then show ?case by simp
next
  case (Cons sx sxs)
  from Cons.prems obtain px where
    "scan_row fp img w c sy sxs (double fp (a + luma fp px), n + 1) = Some (a', n')"
    by (auto split: option.splits)
  from Cons.IH [OF this] show ?case by simp
qed

lemma scan_row_error:
  assumes "scan_row ieee img w c sy sxs (s, n) = Some (s', n')"
    and "scan_row exact img w c sy sxs (t, n) = Some (t', m')"
    and "0 \<le> s" and "s \<le> of_int n" and "0 \<le> n" and "n + int (length sxs) < 2 ^ 31"
  shows "\<bar>s' - t'\<bar> \<le> \<bar>s - t\<bar> + of_nat (length sxs) * (3 / 2 ^ 23)"
  using assms
proof (induction sxs arbitrary: s t n)
  case Nil
  then show ?case by simp
next
  case (Cons sx sxs)
  from Cons.prems(1) obtain px where px: "pixel_rgb img w c sy sx = Some px"
    and ri: "scan_row ieee img w c sy sxs (double ieee (s + luma ieee px), n + 1) = Some (s', n')"
    by (auto split: option.splits)
  from Cons.prems(2) px
  have re: "scan_row exact img w c sy sxs (double exact (t + luma exact px), n + 1) = Some (t', m')"
    by simp
  define x where "x = s + luma ieee px"
  have l: "0 \<le> luma ieee px" "luma ieee px \<le> 1" using luma_range [of px] by simp_all
  have x0: "0 \<le> x" using l Cons.prems(3) by (simp add: x_def)
  have a: "0 \<le> double ieee x" using x0 by (rule double_nonneg)
  have n1: "\<bar>n + 1\<bar> \<le> 2 ^ 53" "(of_int (n + 1) :: real) < 2 ^ 31"
  proof -
    have "n + 1 < 2 ^ 31" using Cons.prems(5,6) by simp
    then show "\<bar>n + 1\<bar> \<le> 2 ^ 53" using Cons.prems(5) by simp
    from \<open>n + 1 < 2 ^ 31\<close> have "(of_int (n + 1) :: real) < of_int (2 ^ 31)"
      by (simp only: of_int_less_iff)
    then show "(of_int (n + 1) :: real) < 2 ^ 31" by simp
  qed
  have xn: "x \<le> of_int (n + 1)" using l Cons.prems(4) by (simp add: x_def)
  have "double ieee x \<le> double ieee (of_int (n + 1))" using xn by (rule double_mono)
  then have b: "double ieee x \<le> of_int (n + 1)" by (simp only: double_int [OF n1(1)])
  have "\<bar>x\<bar> < 2 powi 31" using x0 xn n1(2) by simp
  then have "\<bar>double ieee x - x\<bar> \<le> 2 powi (31 - 1 - 53)" by (rule double_half_ulp) simp
  then have d: "\<bar>double ieee x - x\<bar> \<le> 1 / 2 ^ 23" by simp
  have e: "\<bar>luma ieee px - luma exact px\<bar> \<le> 2 / 2 ^ 23"
    using luma_ieee_error [of px] by simp
  have de: "double exact (t + luma exact px) = t + luma exact px" by (simp add: exact_def)
  have step: "\<bar>double ieee x - double exact (t + luma exact px)\<bar> \<le> \<bar>s - t\<bar> + 3 / 2 ^ 23"
    unfolding de using d e unfolding x_def by linarith
  have len: "n + 1 + int (length sxs) < 2 ^ 31" using Cons.prems(6) by simp
  have n0: "0 \<le> n + 1" using Cons.prems(5) by simp
  from Cons.IH [OF ri [folded x_def] re a b n0 len] step
  have "\<bar>s' - t'\<bar> \<le> \<bar>s - t\<bar> + 3 / 2 ^ 23 + of_nat (length sxs) * (3 / 2 ^ 23)" by linarith
  moreover have "of_nat (length (sx # sxs)) * (3 / 2 ^ 23)
      = 3 / 2 ^ 23 + of_nat (length sxs) * (3 / 2 ^ 23 :: real)"
    by (simp add: algebra_simps)
  ultimately show ?case by linarith
qed

lemma scan_rect_error:
  assumes "scan_rect ieee img w c sys sxs (s, n) = Some (s', n')"
    and "scan_rect exact img w c sys sxs (t, n) = Some (t', m')"
    and "0 \<le> s" and "s \<le> of_int n" and "0 \<le> n"
    and "n + int (length sys) * int (length sxs) < 2 ^ 31"
  shows "\<bar>s' - t'\<bar> \<le> \<bar>s - t\<bar> + of_nat (length sys * length sxs) * (3 / 2 ^ 23)"
  using assms
proof (induction sys arbitrary: s t n)
  case Nil
  then show ?case by simp
next
  case (Cons sy sys)
  from Cons.prems(1) obtain s1 n1 where ri: "scan_row ieee img w c sy sxs (s, n) = Some (s1, n1)"
    and ci: "scan_rect ieee img w c sys sxs (s1, n1) = Some (s', n')"
    by (auto split: option.splits)
  from Cons.prems(2) obtain t1 k1 where re: "scan_row exact img w c sy sxs (t, n) = Some (t1, k1)"
    and ce: "scan_rect exact img w c sys sxs (t1, k1) = Some (t', m')"
    by (auto split: option.splits)
  have le: "n + int (length sxs) \<le> n + int (length (sy # sys)) * int (length sxs)"
    by (simp add: algebra_simps)
  with Cons.prems(6) have l31: "n + int (length sxs) < 2 ^ 31" by linarith
  then have l53: "n + int (length sxs) \<le> 2 ^ 53" by simp
  from scan_row_range [OF ri Cons.prems(3,4,5) l53]
  have r: "0 \<le> s1" "s1 \<le> of_int n1" "n1 = n + int (length sxs)" by blast+
  have k1: "k1 = n1" using scan_row_count [OF re] r(3) by simp
  have n10: "0 \<le> n1" using r(3) Cons.prems(5) by simp
  have len: "n1 + int (length sys) * int (length sxs) < 2 ^ 31"
    using Cons.prems(6) r(3) by (simp add: algebra_simps)
  from scan_row_error [OF ri re Cons.prems(3,4,5) l31]
  have e1: "\<bar>s1 - t1\<bar> \<le> \<bar>s - t\<bar> + of_nat (length sxs) * (3 / 2 ^ 23)" .
  from Cons.IH [OF ci ce [unfolded k1] r(1,2) n10 len]
  have e2: "\<bar>s' - t'\<bar> \<le> \<bar>s1 - t1\<bar> + of_nat (length sys * length sxs) * (3 / 2 ^ 23)" .
  have "of_nat (length (sy # sys) * length sxs) * (3 / 2 ^ 23)
      = of_nat (length sxs) * (3 / 2 ^ 23) + of_nat (length sys * length sxs) * (3 / 2 ^ 23 :: real)"
    by (simp add: algebra_simps)
  with e1 e2 show ?case by linarith
qed

lemma pixel_luminance_range:
  assumes "0 \<le> sy" "sy < h" "0 \<le> sx" "sx < w" "c = 1 \<or> c = 3 \<or> c = 4"
    and "w * h * c \<le> int (length img)" and "int (length img) \<le> INT_MAX"
  shows "0 \<le> pixel_luminance img w c sy sx \<and> pixel_luminance img w c sy sx \<le> 1"
proof -
  from pixel_rgb_in_buffer [OF assms] obtain px where "pixel_rgb img w c sy sx = Some px" by blast
  from luma_of_pixel [OF this assms(5)] luma_exact_range [of px] show ?thesis by simp
qed

lemma cell_average_exact:
  assumes "c = 1 \<or> c = 3 \<or> c = 4" and "w * h * c \<le> int (length img)"
    and "int (length img) \<le> INT_MAX"
    and "0 \<le> sy0" and "sy0 < sy1" and "sy1 \<le> h" and "0 \<le> sx0" and "sx0 < sx1" and "sx1 \<le> w"
  shows "cell_luminance exact img w c (sy0, sy1) (sx0, sx1)
           = Some (mean_luminance img w c sy0 sy1 sx0 sx1)"
    and "0 \<le> mean_luminance img w c sy0 sy1 sx0 sx1"
    and "mean_luminance img w c sy0 sy1 sx0 sx1 \<le> 1"
proof -
  define n where "n = (sy1 - sy0) * (sx1 - sx0)"
  have n0: "0 < n" using assms(5,8) by (simp add: n_def)
  have ly: "int (length [sy0..sy1 - 1]) = sy1 - sy0" using assms(5) by simp
  have lx: "int (length [sx0..sx1 - 1]) = sx1 - sx0" using assms(8) by simp
  from cell_luminance_defined [OF assms(1,2) _ _ _ _ assms(3), of "(sy0, sy1)" "(sx0, sx1)" exact]
    assms(4,6,7,9)
  obtain l where l: "cell_luminance exact img w c (sy0, sy1) (sx0, sx1) = Some l" by auto
  then obtain t k where sc: "scan_rect exact img w c [sy0..sy1 - 1] [sx0..sx1 - 1] (0, 0) = Some (t, k)"
    and lv: "l = (if k > 0 then t / of_int k else 0)"
    by (auto simp: cell_luminance_def exact_def split: bind_splits)
  have "\<forall>sy \<in> set [sy0..sy1 - 1]. \<forall>sx \<in> set [sx0..sx1 - 1].
      \<exists>px. pixel_rgb img w c sy sx = Some px"
  proof (intro ballI)
    fix sy sx assume "sy \<in> set [sy0..sy1 - 1]" "sx \<in> set [sx0..sx1 - 1]"
    then have "0 \<le> sy" "sy < h" "0 \<le> sx" "sx < w" using assms(4,6,7,9) by simp_all
    then show "\<exists>px. pixel_rgb img w c sy sx = Some px"
      using assms(1,2,3) by (rule pixel_rgb_in_buffer)
  qed
  from scan_rect_defined [OF this, of exact 0 0] sc
  have k: "k = n" unfolding n_def ly [symmetric] lx [symmetric] by simp
  from scan_rect_exact [OF sc assms(1)]
  have t: "t = (\<Sum>sy = sy0..<sy1. \<Sum>sx = sx0..<sx1. pixel_luminance img w c sy sx)"
    by (simp add: sum_list_upto)
  show "cell_luminance exact img w c (sy0, sy1) (sx0, sx1)
           = Some (mean_luminance img w c sy0 sy1 sx0 sx1)"
    using n0 by (simp add: l lv k t mean_luminance_def n_def)
  have p: "0 \<le> pixel_luminance img w c sy sx \<and> pixel_luminance img w c sy sx \<le> 1"
    if "sy \<in> {sy0..<sy1}" "sx \<in> {sx0..<sx1}" for sy sx
    by (rule pixel_luminance_range [OF _ _ _ _ assms(1,2,3)]) (use that assms(4,6,7,9) in simp_all)
  have inner: "0 \<le> (\<Sum>sx = sx0..<sx1. pixel_luminance img w c sy sx) \<and>
      (\<Sum>sx = sx0..<sx1. pixel_luminance img w c sy sx) \<le> of_int (sx1 - sx0)"
    if "sy \<in> {sy0..<sy1}" for sy
  proof -
    have "(\<Sum>sx = sx0..<sx1. pixel_luminance img w c sy sx) \<le> of_nat (card {sx0..<sx1}) * 1"
      by (rule sum_bounded_above) (use p that in blast)
    moreover have "0 \<le> (\<Sum>sx = sx0..<sx1. pixel_luminance img w c sy sx)"
      by (rule sum_nonneg) (use p that in blast)
    ultimately show ?thesis using assms(8) by simp
  qed
  have "t \<le> of_nat (card {sy0..<sy1}) * of_int (sx1 - sx0)"
    unfolding t by (rule sum_bounded_above) (use inner in blast)
  then have tn: "t \<le> of_int n" using assms(5) by (simp add: n_def)
  have t0: "0 \<le> t" unfolding t by (rule sum_nonneg) (use inner in blast)
  have m: "mean_luminance img w c sy0 sy1 sx0 sx1 = t / of_int n"
    by (simp add: mean_luminance_def t n_def)
  show "0 \<le> mean_luminance img w c sy0 sy1 sx0 sx1" unfolding m using t0 n0 by simp
  show "mean_luminance img w c sy0 sy1 sx0 sx1 \<le> 1" unfolding m using tn n0 by simp
qed

lemma cell_average_ieee:
  assumes "c = 1 \<or> c = 3 \<or> c = 4" and "w * h * c \<le> int (length img)"
    and "int (length img) \<le> INT_MAX"
    and "0 \<le> sy0" and "sy0 < sy1" and "sy1 \<le> h" and "0 \<le> sx0" and "sx0 < sx1" and "sx1 \<le> w"
  shows "\<exists>lum. cell_luminance ieee img w c (sy0, sy1) (sx0, sx1) = Some lum \<and>
           0 \<le> lum \<and> lum \<le> 1 \<and>
           \<bar>lum - mean_luminance img w c sy0 sy1 sx0 sx1\<bar> \<le> 1 / 2 ^ 21"
proof -
  define n where "n = (sy1 - sy0) * (sx1 - sx0)"
  have n0: "0 < n" using assms(5,8) by (simp add: n_def)
  have ly: "int (length [sy0..sy1 - 1]) = sy1 - sy0" using assms(5) by simp
  have lx: "int (length [sx0..sx1 - 1]) = sx1 - sx0" using assms(8) by simp
  have w0: "0 \<le> w" "0 \<le> h" using assms(4-9) by simp_all
  have "int (length [fst (sy0, sy1)..snd (sy0, sy1) - 1]) *
        int (length [fst (sx0, sx1)..snd (sx0, sx1) - 1]) \<le> h * w"
    by (rule rectangle_size) (use assms(4,6,7,9) w0 in simp_all)
  then have nhw: "n \<le> h * w" by (simp add: n_def ly lx del: length_upto)
  have "h * w * 1 \<le> h * w * c" using w0 assms(1) by (intro mult_left_mono) auto
  then have "h * w \<le> INT_MAX" using assms(2,3) by (simp add: mult.commute mult.left_commute)
  then have n31: "n < 2 ^ 31" using nhw by (simp add: INT_MAX_def)
  have pre: "0 + int (length [sy0..sy1 - 1]) * int (length [sx0..sx1 - 1]) < 2 ^ 31"
    unfolding ly lx using n31 by (simp add: n_def)
  have pre53: "int (length [fst (sy0, sy1)..snd (sy0, sy1) - 1]) *
        int (length [fst (sx0, sx1)..snd (sx0, sx1) - 1]) \<le> 2 ^ 53"
    using n31 by (simp add: n_def ly lx del: length_upto)
  have inb: "\<forall>sy \<in> set [sy0..sy1 - 1]. \<forall>sx \<in> set [sx0..sx1 - 1].
      \<exists>px. pixel_rgb img w c sy sx = Some px"
  proof (intro ballI)
    fix sy sx assume "sy \<in> set [sy0..sy1 - 1]" "sx \<in> set [sx0..sx1 - 1]"
    then have "0 \<le> sy" "sy < h" "0 \<le> sx" "sx < w" using assms(4,6,7,9) by simp_all
    then show "\<exists>px. pixel_rgb img w c sy sx = Some px"
      using assms(1,2,3) by (rule pixel_rgb_in_buffer)
  qed
  from scan_rect_defined [OF inb, of ieee 0 0]
  obtain s where si: "scan_rect ieee img w c [sy0..sy1 - 1] [sx0..sx1 - 1] (0, 0) = Some (s, n)"
    unfolding n_def ly [symmetric] lx [symmetric] by auto
  from scan_rect_defined [OF inb, of exact 0 0]
  obtain t where se: "scan_rect exact img w c [sy0..sy1 - 1] [sx0..sx1 - 1] (0, 0) = Some (t, n)"
    unfolding n_def ly [symmetric] lx [symmetric] by auto
  have "0 \<le> s \<and> s \<le> of_int n \<and>
      n = 0 + int (length [sy0..sy1 - 1]) * int (length [sx0..sx1 - 1])"
    by (rule scan_rect_range [OF si]) (use pre in simp_all)
  then have s: "0 \<le> s" "s \<le> of_int n" by blast+
  have "\<bar>s - t\<bar> \<le> \<bar>0 - 0 :: real\<bar> + of_nat (length [sy0..sy1 - 1] * length [sx0..sx1 - 1]) * (3 / 2 ^ 23)"
    by (rule scan_rect_error [OF si se]) (use pre in simp_all)
  moreover have "(of_nat (length [sy0..sy1 - 1] * length [sx0..sx1 - 1]) :: real) = of_int n"
  proof -
    have "int (length [sy0..sy1 - 1] * length [sx0..sx1 - 1]) = n"
      unfolding n_def ly [symmetric] lx [symmetric] by (simp only: of_nat_mult)
    then show ?thesis by (metis of_int_of_nat_eq)
  qed
  ultimately have st: "\<bar>s - t\<bar> \<le> of_int n * (3 / 2 ^ 23)" by simp
  define N :: real where "N = of_int n"
  have N0: "0 < N" using n0 by (simp add: N_def)
  have "\<bar>s / N - t / N\<bar> = \<bar>s - t\<bar> / N" using N0 by (simp add: diff_divide_distrib [symmetric])
  also have "\<dots> \<le> (N * (3 / 2 ^ 23)) / N" using st N0 unfolding N_def by (intro divide_right_mono) simp_all
  also have "\<dots> = 3 / 2 ^ 23" using N0 by simp
  finally have e1: "\<bar>s / N - t / N\<bar> \<le> 3 / 2 ^ 23" .
  have q: "0 \<le> s / N" "s / N \<le> 1" using s N0 by (simp_all add: N_def)
  define D where "D = double ieee (s / N)"
  have D: "0 \<le> D" "D \<le> 1"
    using double_nonneg [OF q(1)] double_mono [OF q(2)] by (simp_all add: D_def double_1)
  have "\<bar>s / N\<bar> \<le> 2 powi 0" using q by simp
  then have "\<bar>double ieee (s / N) - s / N\<bar> \<le> 2 powi (0 - 53)" by (rule double_abs_error) simp
  then have e2: "\<bar>D - s / N\<bar> \<le> 1 / 2 ^ 53" by (simp add: D_def)
  have "\<bar>D\<bar> \<le> 2 powi 0" using D by simp
  then have "\<bar>single ieee D - D\<bar> \<le> 2 powi (0 - 24)" by (rule single_abs_error) simp
  then have e3: "\<bar>single ieee D - D\<bar> \<le> 1 / 2 ^ 24" by simp
  have L: "0 \<le> single ieee D" "single ieee D \<le> 1"
    using single_nonneg [OF D(1)] single_mono [OF D(2)] by (simp_all add: single_1)
  have nn: "\<bar>n\<bar> \<le> 2 ^ 53" using n0 n31 by simp
  have ci: "cell_luminance ieee img w c (sy0, sy1) (sx0, sx1) = Some (single ieee D)"
    using n0 by (simp add: cell_luminance_def double_0 si double_int [OF nn] D_def N_def)
  have ex: "single exact x = x" "double exact x = x" for x by (simp_all add: exact_def)
  have "cell_luminance exact img w c (sy0, sy1) (sx0, sx1) = Some (t / N)"
    using n0 by (simp add: cell_luminance_def ex se N_def)
  with cell_average_exact(1) [OF assms]
  have m: "mean_luminance img w c sy0 sy1 sx0 sx1 = t / N" by simp
  have "\<bar>single ieee D - t / N\<bar> \<le> 1 / 2 ^ 24 + 1 / 2 ^ 53 + 3 / 2 ^ 23"
    using e1 e2 e3 by linarith
  also have "\<dots> \<le> 1 / 2 ^ 21" by simp
  finally have "\<bar>single ieee D - mean_luminance img w c sy0 sy1 sx0 sx1\<bar> \<le> 1 / 2 ^ 21"
    by (simp only: m)
  with ci L show ?thesis by blast
qed

text \<open>
  Claim C3, as amended. For a decoded buffer of one, three or four channels (\<open>w * h * c\<close>
  bytes, of \<^verbatim>\<open>int\<close> size) and a rectangle with at least one pixel inside the image: in
  exact arithmetic the cell luminance of the averager, run on the channel count of line 79,
  is the arithmetic mean of \<open>(0.2126 r + 0.7152 g + 0.0722 b) / 255\<close> over the pixels of
  the rectangle, and the mean lies in \<open>[0, 1]\<close>; as computed in IEEE single and double
  precision the cell luminance lies in \<open>[0, 1]\<close> as well and differs from that mean by at
  most \<open>2 ^ -21\<close>.
\<close>

theorem cell_average:
  assumes "well_formed im" and "img_channels im \<noteq> 2"
    and "0 \<le> sy0" and "sy0 < sy1" and "sy1 \<le> img_h im"
    and "0 \<le> sx0" and "sx0 < sx1" and "sx1 \<le> img_w im"
  shows "cell_luminance exact (img_data im) (img_w im) (img_channels (normalized im))
             (sy0, sy1) (sx0, sx1)
           = Some (mean_luminance (img_data im) (img_w im) (img_channels im) sy0 sy1 sx0 sx1) \<and>
         0 \<le> mean_luminance (img_data im) (img_w im) (img_channels im) sy0 sy1 sx0 sx1 \<and>
         mean_luminance (img_data im) (img_w im) (img_channels im) sy0 sy1 sx0 sx1 \<le> 1 \<and>
         (\<exists>lum. cell_luminance ieee (img_data im) (img_w im) (img_channels (normalized im))
                    (sy0, sy1) (sx0, sx1) = Some lum \<and>
            0 \<le> lum \<and> lum \<le> 1 \<and>
            \<bar>lum - mean_luminance (img_data im) (img_w im) (img_channels im) sy0 sy1 sx0 sx1\<bar>
              \<le> 1 / 2 ^ 21)"
proof -
  define c where "c = img_channels im"
  from assms(1,2) have c: "c = 1 \<or> c = 3 \<or> c = 4"
    and len: "img_w im * img_h im * c \<le> int (length (img_data im))"
    and m: "int (length (img_data im)) \<le> INT_MAX"
    by (auto simp: well_formed_def c_def)
  have n: "img_channels (normalized im) = c" using c by (auto simp: normalized_def c_def)
  from cell_average_exact [OF c len m assms(3-8)] cell_average_ieee [OF c len m assms(3-8)]
  show ?thesis unfolding n c_def [symmetric] by blast
qed

theorem cell_average_witness:
  "cell_luminance exact (img_data demo_image) (img_w demo_image)
       (img_channels (normalized demo_image)) (0, 2) (1, 2)
     = Some (mean_luminance (img_data demo_image) (img_w demo_image) (img_channels demo_image)
               0 2 1 2) \<and>
   (\<exists>lum. cell_luminance ieee (img_data demo_image) (img_w demo_image)
              (img_channels (normalized demo_image)) (0, 2) (1, 2) = Some lum \<and>
      0 \<le> lum \<and> lum \<le> 1 \<and>
      \<bar>lum - mean_luminance (img_data demo_image) (img_w demo_image) (img_channels demo_image)
               0 2 1 2\<bar> \<le> 1 / 2 ^ 21)"
proof -
  have h: "well_formed demo_image" "img_channels demo_image \<noteq> 2"
    "(0::int) \<le> 0" "(0::int) < 2" "2 \<le> img_h demo_image"
    "(0::int) \<le> 1" "(1::int) < 2" "2 \<le> img_w demo_image"
    by (simp_all add: well_formed_def demo_image_def INT_MAX_def)
  from cell_average [OF h] show ?thesis by blast
qed

text \<open>
  The computed value is not the mean, and not the float nearest to the mean either: one
  grey pixel of value 51 has mean \<open>51 / 255 = 1 / 5\<close>; the float nearest to \<open>1 / 5\<close> is
  \<open>13421773 / 2 ^ 26\<close>; the weighted sum of the program is \<open>13369345 / 2 ^ 18\<close>, above
  51, and its quotient by 255 is \<open>6710887 / 2 ^ 25\<close>, the next float up. For one pixel
  of colour \<open>(243, 197, 5)\<close> the computed value is two floats below the one nearest to the
  mean, more than \<open>2 ^ -23\<close> away from the mean.
\<close>

lemma grey_51_steps:
  "single ieee (891709/4194304 * 51) = 5684645/524288"
  "single ieee (11999065/16777216 * 51) = 9561755/262144"
  "single ieee (1211315/16777216 * 51) = 7722133/2097152"
  "single ieee (5684645/524288 + 9561755/262144) = 6202039/131072"
  "single ieee (6202039/131072 + 7722133/2097152) = 13369345/262144"
  "single ieee (13369345/262144 / 255) = 6710887/33554432"
  "single ieee (6710887/33554432) = 6710887/33554432"
  "double ieee (6710887/33554432) = 6710887/33554432"
  "single ieee (1 / 5) = 13421773/67108864"
  by code_simp+

lemma grey_51_luma: "luma ieee (51, 51, 51) = 6710887/33554432"
proof -
  have u: "single ieee (unsigned (51 :: 8 word)) = 51" using byte_value(3) [of 51] by simp
  show ?thesis
    unfolding luma_def prod.case of_nat_unat luma_consts u grey_51_steps ..
qed

lemma colour_steps:
  "single ieee (891709/4194304 * 243) = 6771415/131072"
  "single ieee (11999065/16777216 * 197) = 9233655/65536"
  "single ieee (1211315/16777216 * 5) = 6056575/16777216"
  "single ieee (6771415/131072 + 9233655/65536) = 6309681/32768"
  "single ieee (6309681/32768 + 6056575/16777216) = 3160755/16384"
  "single ieee (3160755/16384 / 255) = 1586575/2097152"
  "single ieee (1586575/2097152) = 1586575/2097152"
  "double ieee (1586575/2097152) = 1586575/2097152"
  "single ieee (482293/637500) = 6346301/8388608"
  by code_simp+

lemma colour_luma: "luma ieee (243, 197, 5) = 1586575/2097152"
proof -
  have u: "single ieee (unsigned (243 :: 8 word)) = 243"
    "single ieee (unsigned (197 :: 8 word)) = 197" "single ieee (unsigned (5 :: 8 word)) = 5"
    using byte_value(3) [of 243] byte_value(3) [of 197] byte_value(3) [of 5] by simp_all
  show ?thesis
    unfolding luma_def prod.case of_nat_unat luma_consts u colour_steps ..
qed

theorem cell_average_counterexample:
  "cell_luminance ieee [51] 1 1 (0, 1) (0, 1) = Some (6710887 / 33554432) \<and>
   mean_luminance [51] 1 1 0 1 0 1 = 1 / 5 \<and>
   single ieee (1 / 5) = 13421773 / 67108864 \<and>
   cell_luminance ieee [243, 197, 5] 1 3 (0, 1) (0, 1) = Some (1586575 / 2097152) \<and>
   mean_luminance [243, 197, 5] 1 3 0 1 0 1 = 482293 / 637500 \<and>
   single ieee (482293 / 637500) = 6346301 / 8388608 \<and>
   1 / 2 ^ 23 < \<bar>(1586575 / 2097152 :: real) - 482293 / 637500\<bar>"
proof -
  have p: "pixel_rgb [51] 1 1 0 0 = Some (51, 51, 51)"
    by (simp add: pixel_rgb_def pixel_index_def int_result_def byte_at_def INT_MIN_def INT_MAX_def)
  have "scan_rect ieee [51] 1 1 [0] [0] (0, 0) = Some (6710887 / 33554432, 1)"
    by (simp add: p grey_51_luma grey_51_steps)
  then have a: "cell_luminance ieee [51] 1 1 (0, 1) (0, 1) = Some (6710887 / 33554432)"
    by (simp add: cell_luminance_def double_0 double_1 grey_51_steps)
  have i: "{0..<1::int} = {0}" by auto
  then have b: "mean_luminance [51] 1 1 0 1 0 1 = 1 / 5"
    by (simp add: mean_luminance_def pixel_luminance_def channel_value_def)
  have q: "pixel_rgb [243, 197, 5] 1 3 0 0 = Some (243, 197, 5)"
    by (simp add: pixel_rgb_def pixel_index_def int_result_def byte_at_def INT_MIN_def INT_MAX_def)
  have "scan_rect ieee [243, 197, 5] 1 3 [0] [0] (0, 0) = Some (1586575 / 2097152, 1)"
    by (simp add: q colour_luma colour_steps)
  then have c: "cell_luminance ieee [243, 197, 5] 1 3 (0, 1) (0, 1) = Some (1586575 / 2097152)"
    by (simp add: cell_luminance_def double_0 double_1 colour_steps)
  have d: "mean_luminance [243, 197, 5] 1 3 0 1 0 1 = 482293 / 637500"
    using i by (simp add: mean_luminance_def pixel_luminance_def channel_value_def)
  have e: "1 / 2 ^ 23 < \<bar>(1586575 / 2097152 :: real) - 482293 / 637500\<bar>" by simp
  from a b grey_51_steps(9) c d colour_steps(9) e show ?thesis by simp
qed

subsection \<open>Buffers of two channels\<close>

text \<open>
  A decoded buffer of two channels (grey and alpha) is left out above. Line 79 sets the
  channel count to 1 while the buffer keeps two bytes for every pixel, so line 115 indexes
  it with a stride of one byte and the loops take alpha bytes for pixels: on a row of two
  opaque black pixels, whose mean luminance is 0, the averager yields \<open>1 / 2\<close>.
\<close>

lemma grey_alpha_average:
  "well_formed grey_alpha_image \<and>
   img_channels (normalized grey_alpha_image) = 1 \<and>
   cell_luminance exact (img_data grey_alpha_image) (img_w grey_alpha_image)
       (img_channels (normalized grey_alpha_image)) (0, 1) (0, 2) = Some (1 / 2) \<and>
   mean_luminance (img_data grey_alpha_image) (img_w grey_alpha_image)
       (img_channels grey_alpha_image) 0 1 0 2 = 0"
proof -
  have w: "well_formed grey_alpha_image"
    by (simp add: well_formed_def grey_alpha_image_def INT_MAX_def)
  have n: "img_channels (normalized grey_alpha_image) = 1"
    by (simp add: normalized_def grey_alpha_image_def)
  have p: "pixel_rgb [0, 255, 0, 255] 2 1 0 0 = Some (0, 0, 0)"
    "pixel_rgb [0, 255, 0, 255] 2 1 0 1 = Some (255, 255, 255)"
    by (simp_all add: pixel_rgb_def pixel_index_def int_result_def byte_at_def
        INT_MIN_def INT_MAX_def)
  have l: "luma exact (0, 0, 0) = 0" "luma exact (255, 255, 255) = 1"
    by (simp_all add: luma_exact)
  have u: "[0..2 - 1] = [0, 1 :: int]" "[0..1 - 1] = [0 :: int]" by (simp_all add: upto.simps)
  have ex: "single exact x = x" "double exact x = x" for x by (simp_all add: exact_def)
  have sc: "scan_rect exact [0, 255, 0, 255] 2 1 [0] [0, 1] (0, 0) = Some (1, 2)"
    by (simp add: p l ex)
  have c: "cell_luminance exact [0, 255, 0, 255] 2 1 (0, 1) (0, 2) = Some (1 / 2)"
    unfolding cell_luminance_def fst_conv snd_conv u ex sc by simp
  have "{0..<1::int} = {0}" "{0..<2::int} = {0, 1}" by auto
  then have m: "mean_luminance [0, 255, 0, 255] 2 2 0 1 0 2 = 0"
    by (simp add: mean_luminance_def pixel_luminance_def channel_value_def)
  from w n c m show ?thesis by (simp add: grey_alpha_image_def)
qed

end
